theory Spec2Isabelle
  imports Complex_Main "HOL-Library.AList"
begin

section \<open>Strings of the JavaScript runtime\<close>

text \<open>
  File names and encoder arguments are modelled as ASCII strings (\<open>char list\<close>).
  \<open>String.prototype.slice\<close> is modelled in full: a negative index counts from the
  end, and both indices are clamped to the string.
\<close>

definition js_slice :: "string \<Rightarrow> int \<Rightarrow> int \<Rightarrow> string" where
  "js_slice s a b =
     (let len = int (length s);
          from = (if a < 0 then max (len + a) 0 else min a len);
          to = (if b < 0 then max (len + b) 0 else min b len)
      in take (nat (to - from)) (drop (nat from) s))"

text \<open>
  \<open>String.prototype.toLowerCase\<close> on ASCII: the letters \<open>A\<close> to \<open>Z\<close> are mapped to
  \<open>a\<close> to \<open>z\<close>, every other character is left as it is.
\<close>

definition upper_letters :: string where
  "upper_letters = ''ABCDEFGHIJKLMNOPQRSTUVWXYZ''"

definition lower_letters :: string where
  "lower_letters = ''abcdefghijklmnopqrstuvwxyz''"

definition to_lower_char :: "char \<Rightarrow> char" where
  "to_lower_char c =
     (case map_of (zip upper_letters lower_letters) c of Some d \<Rightarrow> d | None \<Rightarrow> c)"

definition toLowerCase :: "string \<Rightarrow> string" where
  "toLowerCase s = map to_lower_char s"

text \<open>Decimal rendering of an integer, as a template literal prints it.\<close>

definition digit_char :: "nat \<Rightarrow> char" where
  "digit_char d = ''0123456789'' ! (d mod 10)"

fun show_nat :: "nat \<Rightarrow> string" where
  "show_nat n = (if n < 10 then [digit_char n] else show_nat (n div 10) @ [digit_char (n mod 10)])"

declare show_nat.simps [simp del]

definition show_int :: "int \<Rightarrow> string" where
  "show_int i = (if i < 0 then CHR ''-'' # show_nat (nat (- i)) else show_nat (nat i))"

section \<open>\<open>path.extname\<close> and \<open>path.basename\<close> (POSIX flavour of the runtime)\<close>

text \<open>
  \<open>file-manager.ts\<close> calls \<open>path.extname\<close> and \<open>path.basename\<close> of the Node.js
  runtime. Both scan the path from its last character to its first; the loop
  \<open>for (i = path.length - 1; i >= 0; --i)\<close> is a recursion over the reversed path, where
  the index \<open>i\<close> of the character in hand is the number of characters still to visit.
  The sentinel \<open>-1\<close> of the runtime's index variables is kept.
\<close>

record ext_state =
  startDot :: int
  startPart :: int
  end' :: int
  matchedSlash :: bool
  preDotState :: int

fun extname_loop :: "string \<Rightarrow> ext_state \<Rightarrow> ext_state" where
  "extname_loop [] st = st"
| "extname_loop (code # rest) st =
     (let i = int (length rest) in
      if code = CHR ''/'' then
        (if \<not> matchedSlash st then st\<lparr>startPart := i + 1\<rparr>
         else extname_loop rest st)
      else
        (let st1 = (if end' st = - 1 then st\<lparr>matchedSlash := False, end' := i + 1\<rparr> else st);
             st2 = (if code = CHR ''.'' then
                      (if startDot st1 = - 1 then st1\<lparr>startDot := i\<rparr>
                       else if preDotState st1 \<noteq> 1 then st1\<lparr>preDotState := 1\<rparr>
                       else st1)
                    else if startDot st1 \<noteq> - 1 then st1\<lparr>preDotState := - 1\<rparr>
                    else st1)
         in extname_loop rest st2))"

definition ext_init :: ext_state where
  "ext_init = \<lparr>startDot = - 1, startPart = 0, end' = - 1, matchedSlash = True, preDotState = 0\<rparr>"

definition ext_result :: "string \<Rightarrow> ext_state \<Rightarrow> string" where
  "ext_result path st =
     (if startDot st = - 1 \<or> end' st = - 1 \<or> preDotState st = 0 \<or>
         (preDotState st = 1 \<and> startDot st = end' st - 1 \<and> startDot st = startPart st + 1)
      then []
      else js_slice path (startDot st) (end' st))"

definition extname :: "string \<Rightarrow> string" where
  "extname path = ext_result path (extname_loop (rev path) ext_init)"

record base_state =
  b_start :: int
  b_end :: int
  b_matchedSlash :: bool
  extIdx :: int
  firstNonSlashEnd :: int

fun basename_suffix_loop :: "string \<Rightarrow> string \<Rightarrow> base_state \<Rightarrow> base_state" where
  "basename_suffix_loop suffix [] st = st"
| "basename_suffix_loop suffix (code # rest) st =
     (let i = int (length rest) in
      if code = CHR ''/'' then
        (if \<not> b_matchedSlash st then st\<lparr>b_start := i + 1\<rparr>
         else basename_suffix_loop suffix rest st)
      else
        (let st1 = (if firstNonSlashEnd st = - 1
                    then st\<lparr>b_matchedSlash := False, firstNonSlashEnd := i + 1\<rparr> else st);
             st2 = (if extIdx st1 \<ge> 0 then
                      (if code = suffix ! nat (extIdx st1) then
                         (let st' = st1\<lparr>extIdx := extIdx st1 - 1\<rparr>
                          in if extIdx st' = - 1 then st'\<lparr>b_end := i\<rparr> else st')
                       else st1\<lparr>extIdx := - 1, b_end := firstNonSlashEnd st1\<rparr>)
                    else st1)
         in basename_suffix_loop suffix rest st2))"

fun basename_plain_loop :: "string \<Rightarrow> base_state \<Rightarrow> base_state" where
  "basename_plain_loop [] st = st"
| "basename_plain_loop (code # rest) st =
     (let i = int (length rest) in
      if code = CHR ''/'' then
        (if \<not> b_matchedSlash st then st\<lparr>b_start := i + 1\<rparr>
         else basename_plain_loop rest st)
      else if b_end st = - 1 then
        basename_plain_loop rest (st\<lparr>b_matchedSlash := False, b_end := i + 1\<rparr>)
      else basename_plain_loop rest st)"

definition basename :: "string \<Rightarrow> string \<Rightarrow> string" where
  "basename path suffix =
     (let st0 = \<lparr>b_start = 0, b_end = - 1, b_matchedSlash = True,
                 extIdx = int (length suffix) - 1, firstNonSlashEnd = - 1\<rparr>
      in if length suffix > 0 \<and> length suffix \<le> length path then
           (if suffix = path then []
            else
              (let st = basename_suffix_loop suffix (rev path) st0;
                   e = (if b_start st = b_end st then firstNonSlashEnd st
                        else if b_end st = - 1 then int (length path)
                        else b_end st)
               in js_slice path (b_start st) e))
         else
           (let st = basename_plain_loop (rev path) st0
            in if b_end st = - 1 then [] else js_slice path (b_start st) (b_end st)))"

section \<open>\<open>FileManager\<close> (\<open>server/services/file-manager.ts\<close>)\<close>

text \<open>
  The file system is the set of paths that exist. \<open>unlink\<close> can fail on a path that
  exists (a directory, a permission error): the outcome of the system call is an input
  of the model, and the \<open>catch\<close> branch of \<open>deleteFile\<close> is the branch taken then.
\<close>

type_synonym filesystem = "string set"

datatype unlink_outcome = UnlinkOk | UnlinkFails

definition deleteFile :: "unlink_outcome \<Rightarrow> filesystem \<Rightarrow> string \<Rightarrow> bool \<times> filesystem" where
  "deleteFile oc fs filePath =
     (if filePath \<in> fs then
        (case oc of
           UnlinkOk \<Rightarrow> (True, fs - {filePath})
         | UnlinkFails \<Rightarrow> (False, fs))
      else (False, fs))"

definition cleanupStreamFiles ::
  "unlink_outcome \<Rightarrow> filesystem \<Rightarrow> int \<Rightarrow> string option \<Rightarrow> bool \<times> filesystem" where
  "cleanupStreamFiles oc fs streamId videoPath =
     (case videoPath of
        None \<Rightarrow> (False, fs)
      | Some p \<Rightarrow> if p = [] then (False, fs) else deleteFile oc fs p)"

text \<open>
  \<open>generateUniqueFilename\<close> reads the clock and the random generator. \<open>timestamp\<close> is
  the integer \<open>Date.now()\<close> returned and \<open>random36\<close> the string
  \<open>Math.random().toString(36)\<close> (\<open>0\<close>, or \<open>0.\<close> followed by digits of base 36);
  the code keeps its characters 2 to 7.
\<close>

definition base36_digits :: string where
  "base36_digits = ''0123456789abcdefghijklmnopqrstuvwxyz''"

definition is_random36 :: "string \<Rightarrow> bool" where
  "is_random36 r \<longleftrightarrow>
     r = ''0'' \<or> (take 2 r = ''0.'' \<and> list_all (\<lambda>c. c \<in> set base36_digits) (drop 2 r))"

definition substring :: "string \<Rightarrow> nat \<Rightarrow> nat \<Rightarrow> string" where
  "substring s a b = take (b - a) (drop a s)"

definition generateUniqueFilename :: "int \<Rightarrow> string \<Rightarrow> string \<Rightarrow> string" where
  "generateUniqueFilename timestamp random36 originalName =
     (let random = substring random36 2 8;
          ext = extname originalName;
          name = basename originalName ext
      in name @ ''_'' @ show_int timestamp @ ''_'' @ random @ ext)"

definition allowedExtensions :: "string list" where
  "allowedExtensions = [''.mp4'', ''.mov'', ''.avi'', ''.mkv'', ''.webm'']"

definition isValidVideoFile :: "string \<Rightarrow> bool" where
  "isValidVideoFile filename =
     (let ext = toLowerCase (extname filename) in ext \<in> set allowedExtensions)"


text \<open>Characters that are neither the extension separator nor the path separator.\<close>

definition clean :: "char \<Rightarrow> bool" where
  "clean c \<longleftrightarrow> c \<noteq> CHR ''.'' \<and> c \<noteq> CHR ''/''"

text \<open>
  The invariant of the loop of \<open>extname\<close> at index \<open>n\<close> of the path \<open>p\<close>, and what it
  leaves when the loop ends: the extension found starts at a dot and holds no other dot
  and no slash.
\<close>

definition ext_inv :: "string \<Rightarrow> nat \<Rightarrow> ext_state \<Rightarrow> bool" where
  "ext_inv p n st \<longleftrightarrow>
     (end' st = - 1 \<longrightarrow> startDot st = - 1 \<and> matchedSlash st) \<and>
     (end' st \<noteq> - 1 \<longrightarrow>
        \<not> matchedSlash st \<and> int n < end' st \<and> end' st \<le> int (length p) \<and>
        (startDot st = - 1 \<longrightarrow> (\<forall>j. n \<le> j \<and> int j < end' st \<longrightarrow> clean (p ! j))) \<and>
        (startDot st \<noteq> - 1 \<longrightarrow>
           int n \<le> startDot st \<and> startDot st < end' st \<and> p ! nat (startDot st) = CHR ''.'' \<and>
           (\<forall>j. startDot st < int j \<and> int j < end' st \<longrightarrow> clean (p ! j))))"

definition ext_fin :: "string \<Rightarrow> ext_state \<Rightarrow> bool" where
  "ext_fin p st \<longleftrightarrow>
     (startDot st \<noteq> - 1 \<and> end' st \<noteq> - 1 \<longrightarrow>
        0 \<le> startDot st \<and> startDot st < end' st \<and> end' st \<le> int (length p) \<and>
        p ! nat (startDot st) = CHR ''.'' \<and>
        (\<forall>j. startDot st < int j \<and> int j < end' st \<longrightarrow> clean (p ! j)))"


section \<open>\<open>StreamConfig\<close> and the encoder arguments (\<open>FFmpegService.buildFFmpegArgs\<close>)\<close>

text \<open>
  \<open>volume\<close> is the integer column of the stream record; \<open>id'\<close> is the field \<open>id\<close>.
\<close>

record StreamConfig =
  id' :: int
  videoPath :: string
  streamKey :: string
  quality :: string
  mode :: string
  loopVideo :: bool
  volume :: int
  isMuted :: bool

record QualitySettings =
  width :: int
  height :: int
  bitrate :: string
  bufsize :: string

definition q360 :: QualitySettings where
  "q360 = \<lparr>width = 640, height = 360, bitrate = ''1000k'', bufsize = ''2000k''\<rparr>"

definition q480 :: QualitySettings where
  "q480 = \<lparr>width = 854, height = 480, bitrate = ''1500k'', bufsize = ''3000k''\<rparr>"

definition q720 :: QualitySettings where
  "q720 = \<lparr>width = 1280, height = 720, bitrate = ''3000k'', bufsize = ''6000k''\<rparr>"

definition q1080 :: QualitySettings where
  "q1080 = \<lparr>width = 1920, height = 1080, bitrate = ''6000k'', bufsize = ''12000k''\<rparr>"

definition settings :: "(string \<times> QualitySettings) list" where
  "settings = [(''360p'', q360), (''480p'', q480), (''720p'', q720), (''1080p'', q1080)]"

text \<open>
  \<open>settings\<close> is an object literal, and \<open>settings[quality]\<close> is a property read: a key
  that is not one of the four own properties is looked up in \<open>Object.prototype\<close>, whose
  members (functions, and the object that \<open>__proto__\<close> yields) are all truthy and have
  none of the fields \<open>width\<close>, \<open>height\<close>, \<open>bitrate\<close>, \<open>bufsize\<close>. Only a key found in
  neither place reads as \<open>undefined\<close> and lets \<open>|| settings['720p']\<close> choose the default.
\<close>

definition object_prototype_keys :: "string list" where
  "object_prototype_keys =
     [''constructor'', ''__defineGetter__'', ''__defineSetter__'', ''hasOwnProperty'',
      ''__lookupGetter__'', ''__lookupSetter__'', ''isPrototypeOf'', ''propertyIsEnumerable'',
      ''toString'', ''valueOf'', ''__proto__'', ''toLocaleString'']"

datatype quality_value = Entry QualitySettings | ProtoMember string

definition settings_get :: "string \<Rightarrow> quality_value option" where
  "settings_get key =
     (case map_of settings key of
        Some e \<Rightarrow> Some (Entry e)
      | None \<Rightarrow> if key \<in> set object_prototype_keys then Some (ProtoMember key) else None)"

definition getQualitySettings :: "string \<Rightarrow> quality_value" where
  "getQualitySettings quality' =
     (case settings_get quality' of Some v \<Rightarrow> v | None \<Rightarrow> Entry q720)"

text \<open>Field reads; \<open>None\<close> is \<open>undefined\<close>, which a template literal prints as such.\<close>

fun qs_width :: "quality_value \<Rightarrow> int option" where
  "qs_width (Entry e) = Some (width e)"
| "qs_width (ProtoMember k) = None"

fun qs_height :: "quality_value \<Rightarrow> int option" where
  "qs_height (Entry e) = Some (height e)"
| "qs_height (ProtoMember k) = None"

fun qs_bitrate :: "quality_value \<Rightarrow> string option" where
  "qs_bitrate (Entry e) = Some (bitrate e)"
| "qs_bitrate (ProtoMember k) = None"

fun qs_bufsize :: "quality_value \<Rightarrow> string option" where
  "qs_bufsize (Entry e) = Some (bufsize e)"
| "qs_bufsize (ProtoMember k) = None"

definition template_num :: "int option \<Rightarrow> string" where
  "template_num v = (case v of None \<Rightarrow> ''undefined'' | Some n \<Rightarrow> show_int n)"

text \<open>
  \<open>config.volume / 100\<close> is a number, and the template literal prints it with
  \<open>Number.prototype.toString\<close>. For an integer volume the quotient is a multiple of
  \<open>0.01\<close>; the runtime prints the shortest decimal that reads back as the same double,
  which for such a quotient (below \<open>10\<^sup>1\<^sup>3\<close> in absolute value) is its decimal
  expansion without trailing zeros. \<open>number_to_string\<close> is that printer, on multiples of
  \<open>0.01\<close>.
\<close>

definition volumeLevel :: "StreamConfig \<Rightarrow> rat" where
  "volumeLevel config = of_int (volume config) / 100"

definition number_to_string :: "rat \<Rightarrow> string" where
  "number_to_string x =
     (let h = \<lfloor>x * 100\<rfloor>;
          a = nat \<bar>h\<bar>;
          q = a div 100;
          r = a mod 100
      in (if h < 0 then ''-'' else []) @ show_nat q @
         (if r = 0 then []
          else if r mod 10 = 0 then [CHR ''.'', digit_char (r div 10)]
          else [CHR ''.'', digit_char (r div 10), digit_char (r mod 10)]))"

definition videoFilter :: "StreamConfig \<Rightarrow> string" where
  "videoFilter config =
     (let qualitySettings = getQualitySettings (quality config) in
      if mode config = ''mobile'' then
        ''scale=720:1280:force_original_aspect_ratio=decrease,pad=720:1280:(ow-iw)/2:(oh-ih)/2:black''
      else
        ''scale='' @ template_num (qs_width qualitySettings) @ '':'' @
        template_num (qs_height qualitySettings) @
        '':force_original_aspect_ratio=decrease,pad='' @
        template_num (qs_width qualitySettings) @ '':'' @
        template_num (qs_height qualitySettings) @ '':(ow-iw)/2:(oh-ih)/2:black'')"

definition audioFilter :: "StreamConfig \<Rightarrow> string" where
  "audioFilter config =
     (if isMuted config then ''volume=0''
      else ''volume='' @ number_to_string (volumeLevel config))"

text \<open>An element of the argument array: a string, or \<open>undefined\<close>.\<close>

datatype arg = Str string | Undefined

definition arg_of :: "string option \<Rightarrow> arg" where
  "arg_of v = (case v of None \<Rightarrow> Undefined | Some s \<Rightarrow> Str s)"

definition buildFFmpegArgs :: "StreamConfig \<Rightarrow> arg list" where
  "buildFFmpegArgs config =
     (let rtmpUrl = ''rtmp://a.rtmp.youtube.com/live2/'' @ streamKey config;
          qualitySettings = getQualitySettings (quality config);
          args = [Str ''-re'', Str ''-fflags'', Str ''+genpts''];
          args = (if loopVideo config then args @ [Str ''-stream_loop'', Str ''-1''] else args)
      in args @
         [Str ''-i'', Str (videoPath config),
          Str ''-vf'', Str (videoFilter config),
          Str ''-af'', Str (audioFilter config),
          Str ''-c:v'', Str ''libx264'',
          Str ''-preset'', Str ''veryfast'',
          Str ''-tune'', Str ''zerolatency'',
          Str ''-maxrate'', arg_of (qs_bitrate qualitySettings),
          Str ''-bufsize'', arg_of (qs_bufsize qualitySettings),
          Str ''-pix_fmt'', Str ''yuv420p'',
          Str ''-g'', Str ''60'',
          Str ''-keyint_min'', Str ''60'',
          Str ''-sc_threshold'', Str ''0'',
          Str ''-c:a'', Str ''aac'',
          Str ''-b:a'', Str ''128k'',
          Str ''-ar'', Str ''44100'',
          Str ''-ac'', Str ''2'',
          Str ''-f'', Str ''flv'',
          Str rtmpUrl])"

text \<open>
  Reading a non-negative decimal numeral back as the number it denotes; used to say which
  gain a filter string sets.
\<close>

definition digit_val :: "char \<Rightarrow> nat option" where
  "digit_val c = map_of (zip ''0123456789'' [0, 1, 2, 3, 4, 5, 6, 7, 8, 9]) c"

fun parse_digits :: "string \<Rightarrow> nat \<Rightarrow> nat option" where
  "parse_digits [] acc = Some acc"
| "parse_digits (c # cs) acc =
     (case digit_val c of None \<Rightarrow> None | Some d \<Rightarrow> parse_digits cs (10 * acc + d))"

definition dec_value :: "string \<Rightarrow> rat option" where
  "dec_value s =
     (let ip = takeWhile (\<lambda>c. c \<noteq> CHR ''.'') s;
          fp = drop 1 (dropWhile (\<lambda>c. c \<noteq> CHR ''.'') s)
      in if ip = [] then None
         else (case (parse_digits ip 0, parse_digits fp 0) of
                 (Some a, Some b) \<Rightarrow> Some (of_nat a + of_nat b / 10 ^ length fp)
               | _ \<Rightarrow> None))"

text \<open>
  The configuration of the scenario in the specification: stream 7, 720p, landscape, not
  looping, volume 50, not muted.
\<close>

definition scenario_config :: StreamConfig where
  "scenario_config =
     \<lparr>id' = 7, videoPath = ''uploads/clip.mp4'', streamKey = ''abcd-1234'', quality = ''720p'',
      mode = ''desktop'', loopVideo = False, volume = 50, isMuted = False\<rparr>"


section \<open>Stream statistics (\<open>MemStorage\<close>) and the stats timer of \<open>registerRoutes\<close>\<close>

text \<open>
  A row of \<open>stream_stats\<close>: the columns with a default are nullable, \<open>None\<close> is \<open>null\<close>.
  \<open>stats_id\<close> is the column \<open>id\<close>; a time is a number of milliseconds.
\<close>

record StreamStats =
  stats_id :: int
  streamId :: int
  viewerCount :: "int option"
  uptime :: "int option"
  ping :: "int option"
  connectionStatus :: "string option"
  updatedAt :: "int option"

text \<open>
  \<open>MemStorage.streamStats\<close> is a \<open>Map\<close> from the row id to the row: its entries in
  insertion order, with distinct keys. \<open>Partial<StreamStats>\<close> is the function that
  overrides the fields given.
\<close>

type_synonym stats_table = "(int \<times> StreamStats) list"

definition getStreamStats :: "stats_table \<Rightarrow> int \<Rightarrow> StreamStats option" where
  "getStreamStats tbl sid = find (\<lambda>stats. streamId stats = sid) (map snd tbl)"

definition updateStreamStats ::
  "int \<Rightarrow> stats_table \<Rightarrow> int \<Rightarrow> (StreamStats \<Rightarrow> StreamStats) \<Rightarrow> StreamStats option \<times> stats_table" where
  "updateStreamStats now tbl sid updates =
     (case find (\<lambda>(k, stats). streamId stats = sid) tbl of
        None \<Rightarrow> (None, tbl)
      | Some (k, stats) \<Rightarrow>
          (let updatedStats = (updates stats)\<lparr>updatedAt := Some now\<rparr>
           in (Some updatedStats, AList.update k updatedStats tbl)))"

text \<open>The messages handed to \<open>broadcast\<close>, in the order they are published.\<close>

datatype message =
  StatsUpdate int int int int string
| StreamStarted int
| StreamStopped int

fun about :: "int \<Rightarrow> message \<Rightarrow> bool" where
  "about sid (StatsUpdate i v u p c) = (i = sid)"
| "about sid (StreamStarted i) = False"
| "about sid (StreamStopped i) = False"

definition or_zero :: "int option \<Rightarrow> int" where
  "or_zero v = (case v of None \<Rightarrow> 0 | Some n \<Rightarrow> n)"

text \<open>
  The loop of the timer callback, over the ids it is given. The two
  values \<open>Math.floor(Math.random() * 20)\<close> drawn for a stream are \<open>rnd streamId\<close>; \<open>now\<close> is
  the clock.
\<close>

fun stats_tick_loop ::
  "(int \<Rightarrow> int \<times> int) \<Rightarrow> int \<Rightarrow> int list \<Rightarrow> stats_table \<times> message list \<Rightarrow>
   stats_table \<times> message list" where
  "stats_tick_loop rnd now [] st = st"
| "stats_tick_loop rnd now (sid # rest) (tbl, out) =
     (case getStreamStats tbl sid of
        None \<Rightarrow> stats_tick_loop rnd now rest (tbl, out)
      | Some currentStats \<Rightarrow>
          if connectionStatus currentStats = Some ''connected'' then
            (let newViewerCount = max 0 (or_zero (viewerCount currentStats) + fst (rnd sid) - 10);
                 newUptime = or_zero (uptime currentStats) + 5;
                 newPing = 15 + snd (rnd sid);
                 tbl' = snd (updateStreamStats now tbl sid
                          (\<lambda>s. s\<lparr>viewerCount := Some newViewerCount, uptime := Some newUptime,
                                 ping := Some newPing\<rparr>))
             in stats_tick_loop rnd now rest
                  (tbl', out @ [StatsUpdate sid newViewerCount newUptime newPing ''connected'']))
          else stats_tick_loop rnd now rest (tbl, out))"

text \<open>
  The scenario of the specification: stream 7 is connected with an uptime of 100 seconds,
  stream 8 is not connected, and stream 9 is connected according to its row.
\<close>

definition scenario_stats :: stats_table where
  "scenario_stats =
     [(1, \<lparr>stats_id = 1, streamId = 7, viewerCount = Some 3, uptime = Some 100, ping = Some 20,
           connectionStatus = Some ''connected'', updatedAt = Some 0\<rparr>),
      (2, \<lparr>stats_id = 2, streamId = 8, viewerCount = Some 0, uptime = Some 0, ping = Some 0,
           connectionStatus = Some ''connecting'', updatedAt = Some 0\<rparr>),
      (3, \<lparr>stats_id = 3, streamId = 9, viewerCount = Some 12, uptime = Some 40, ping = Some 18,
           connectionStatus = Some ''connected'', updatedAt = Some 0\<rparr>)]"


section \<open>\<open>FFmpegService\<close>: encoder processes, the handle table and the event loop\<close>

text \<open>
  A \<open>ChildProcess\<close> is its index in the list of all processes spawned so far. It carries
  the listeners registered with \<open>on('exit', ...)\<close> and \<open>on('error', ...)\<close> in registration
  order, the signals passed to \<open>kill\<close>, and whether its \<open>exit\<close> event has been emitted.
  The two \<open>exit\<close> listeners of the service are the one \<open>startStream\<close> registers, which
  captures \<open>config.id\<close>, and the one \<open>stopStream\<close> registers, which captures \<open>streamId\<close>
  and the \<open>resolve\<close> function of the promise of that call.
\<close>

datatype signal = SIGTERM | SIGKILL

datatype listener = StartExit int | StopExit int nat

record child_process =
  spawnargs :: "arg list"
  exitListeners :: "listener list"
  errorListeners :: "int list"
  signals :: "signal list"
  exited :: bool

text \<open>The two columns of a stream row that the exit handler reads and writes.\<close>

record Stream =
  stream_videoPath :: "string option"
  stream_isActive :: "bool option"

datatype spawn_outcome = SpawnOk | SpawnThrows

datatype stop_status = StopPending nat | StopReturned bool

datatype start_status = StartAwaiting nat | StartInGrace | StartReturned bool

datatype cleanup_run = AutoCleanup int | CallbackCleanup int

text \<open>
  A call of \<open>stopStream\<close> that found a process: the promise it returned, its pending
  5-second timer, and the call of \<open>startStream\<close> suspended at \<open>await this.stopStream(...)\<close>
  on that promise, if there is one (the number of that call, and what it will spawn).
\<close>

record stop_call =
  stop_streamId :: int
  stop_process :: nat
  resolved :: bool
  timerPending :: bool
  awaiting :: "(nat \<times> spawn_outcome \<times> StreamConfig) option"

text \<open>
  The state: the fields of the service (\<open>activeStreams\<close>, a \<open>Map\<close> in insertion order, and
  whether a cleanup callback is registered), the processes, the files and stream rows the
  exit handler works on, the calls in flight, the cleanup runs so far (a run of the
  auto-cleanup block of the exit handler of \<open>startStream\<close>, or an invocation of the cleanup
  callback by the exit handler of \<open>stopStream\<close>), the auto-cleanup blocks started but
  not yet carried out, and the exit handlers of \<open>stopStream\<close> suspended at
  \<open>await this.cleanupCallback(streamId)\<close>, each named by the promise it will resolve.
\<close>

record service =
  activeStreams :: "(int \<times> nat) list"
  cleanupCallback :: bool
  children :: "child_process list"
  files :: filesystem
  streams :: "int \<Rightarrow> Stream option"
  stopCalls :: "stop_call list"
  startCalls :: "start_status list"
  cleanupLog :: "cleanup_run list"
  autoPending :: "int list"
  callbackPending :: "nat list"

definition init :: "filesystem \<Rightarrow> (int \<Rightarrow> Stream option) \<Rightarrow> service" where
  "init fs rows =
     \<lparr>activeStreams = [], cleanupCallback = False, children = [], files = fs, streams = rows,
      stopCalls = [], startCalls = [], cleanupLog = [], autoPending = [],
      callbackPending = []\<rparr>"

definition isStreamActive :: "service \<Rightarrow> int \<Rightarrow> bool" where
  "isStreamActive s streamId' \<longleftrightarrow> map_of (activeStreams s) streamId' \<noteq> None"

definition getActiveStreamIds :: "service \<Rightarrow> int list" where
  "getActiveStreamIds s = map fst (activeStreams s)"

definition setCleanupCallback :: "service \<Rightarrow> service" where
  "setCleanupCallback s = s\<lparr>cleanupCallback := True\<rparr>"

definition table_set :: "int \<Rightarrow> nat \<Rightarrow> service \<Rightarrow> service" where
  "table_set k p s = s\<lparr>activeStreams := AList.update k p (activeStreams s)\<rparr>"

definition table_delete :: "int \<Rightarrow> service \<Rightarrow> service" where
  "table_delete k s = s\<lparr>activeStreams := AList.delete k (activeStreams s)\<rparr>"

definition on_exit :: "nat \<Rightarrow> listener \<Rightarrow> service \<Rightarrow> service" where
  "on_exit p l s =
     s\<lparr>children := (children s)
        [p := (children s ! p)\<lparr>exitListeners := exitListeners (children s ! p) @ [l]\<rparr>]\<rparr>"

definition on_error :: "nat \<Rightarrow> int \<Rightarrow> service \<Rightarrow> service" where
  "on_error p k s =
     s\<lparr>children := (children s)
        [p := (children s ! p)\<lparr>errorListeners := errorListeners (children s ! p) @ [k]\<rparr>]\<rparr>"

definition send_signal :: "nat \<Rightarrow> signal \<Rightarrow> service \<Rightarrow> service" where
  "send_signal p sig s =
     s\<lparr>children := (children s)
        [p := (children s ! p)\<lparr>signals := signals (children s ! p) @ [sig]\<rparr>]\<rparr>"

text \<open>
  \<open>stopStream\<close> up to the point where it returns its promise: without a process it
  returns false; with one, it registers its exit listener, sends \<open>SIGTERM\<close> and arms the
  5-second timer.
\<close>

definition stopStream :: "service \<Rightarrow> int \<Rightarrow> stop_status \<times> service" where
  "stopStream s streamId' =
     (case map_of (activeStreams s) streamId' of
        None \<Rightarrow> (StopReturned False, s)
      | Some process \<Rightarrow>
          (let k = length (stopCalls s);
               s1 = on_exit process (StopExit streamId' k) s;
               s2 = send_signal process SIGTERM s1;
               s3 = s2\<lparr>stopCalls := stopCalls s2 @
                      [\<lparr>stop_streamId = streamId', stop_process = process, resolved = False,
                        timerPending = True, awaiting = None\<rparr>]\<rparr>
           in (StopPending k, s3)))"

text \<open>
  \<open>startStream\<close> from the check of the video file to the grace delay. \<open>spawn\<close> either
  returns a process or throws; a throw, like the missing file, is caught and the call
  returns false. After a spawn the call waits for its 1-second timer.
\<close>

definition start_spawn :: "spawn_outcome \<Rightarrow> StreamConfig \<Rightarrow> service \<Rightarrow> start_status \<times> service" where
  "start_spawn oc config s =
     (if videoPath config \<notin> files s then (StartReturned False, s)
      else
        (case oc of
           SpawnThrows \<Rightarrow> (StartReturned False, s)
         | SpawnOk \<Rightarrow>
             (let args = buildFFmpegArgs config;
                  ffmpegProcess = length (children s);
                  s1 = s\<lparr>children := children s @
                         [\<lparr>spawnargs = args, exitListeners = [], errorListeners = [],
                           signals = [], exited = False\<rparr>]\<rparr>;
                  s2 = table_set (id' config) ffmpegProcess s1;
                  s3 = on_error ffmpegProcess (id' config) s2;
                  s4 = on_exit ffmpegProcess (StartExit (id' config)) s3
              in (StartInGrace, s4))))"

definition startStream :: "spawn_outcome \<Rightarrow> StreamConfig \<Rightarrow> service \<Rightarrow> start_status \<times> service" where
  "startStream oc config s =
     (if isStreamActive s (id' config) then
        (case stopStream s (id' config) of
           (StopPending k, s') \<Rightarrow> (StartAwaiting k, s')
         | (StopReturned b, s') \<Rightarrow> start_spawn oc config s')
      else start_spawn oc config s)"

text \<open>
  \<open>resolve(true)\<close> of the promise of stop call \<open>k\<close>: the first resolution settles the
  promise, and a \<open>startStream\<close> suspended on it goes on; a later one does nothing.
\<close>

definition resolve :: "nat \<Rightarrow> service \<Rightarrow> service" where
  "resolve k s =
     (if k < length (stopCalls s) \<and> \<not> resolved (stopCalls s ! k) then
        (let c = stopCalls s ! k;
             s1 = s\<lparr>stopCalls := (stopCalls s)[k := c\<lparr>resolved := True\<rparr>]\<rparr>
         in case awaiting c of
              None \<Rightarrow> s1
            | Some (n, oc, config) \<Rightarrow>
                (case start_spawn oc config s1 of
                   (r, s2) \<Rightarrow> s2\<lparr>startCalls := (startCalls s2)[n := r]\<rparr>))
      else s)"

text \<open>
  The \<open>exit\<close> event of a process, emitted once: every listener runs, in registration
  order, up to its first \<open>await\<close>. The listener of \<open>startStream\<close> deletes the entry of its
  id and starts its auto-cleanup block. The listener of \<open>stopStream\<close> deletes the entry of
  its id; if a cleanup callback is registered it invokes it and is suspended until the
  callback returns, otherwise it resolves its promise. A call suspended on a promise goes
  on after all the listeners have run. The cleanup callback is opaque: its invocation is
  recorded, and its return (or its failure, which is caught) is an event of its own.
\<close>

fun run_exit_listener :: "listener \<Rightarrow> service \<Rightarrow> service" where
  "run_exit_listener (StartExit k) s =
     (let s1 = table_delete k s
      in s1\<lparr>cleanupLog := cleanupLog s1 @ [AutoCleanup k], autoPending := autoPending s1 @ [k]\<rparr>)"
| "run_exit_listener (StopExit streamId' k) s =
     (let s1 = table_delete streamId' s
      in if cleanupCallback s1
         then s1\<lparr>cleanupLog := cleanupLog s1 @ [CallbackCleanup streamId'],
                 callbackPending := callbackPending s1 @ [k]\<rparr>
         else s1)"

fun resolved_by :: "bool \<Rightarrow> listener \<Rightarrow> nat list" where
  "resolved_by cb (StartExit k) = []"
| "resolved_by cb (StopExit streamId' k) = (if cb then [] else [k])"

definition emit_exit :: "nat \<Rightarrow> service \<Rightarrow> service" where
  "emit_exit p s =
     (if p < length (children s) \<and> \<not> exited (children s ! p) then
        (let ls = exitListeners (children s ! p);
             s1 = s\<lparr>children := (children s)[p := (children s ! p)\<lparr>exited := True\<rparr>]\<rparr>;
             s2 = fold run_exit_listener ls s1
         in fold resolve (concat (map (resolved_by (cleanupCallback s)) ls)) s2)
      else s)"

definition emit_error :: "nat \<Rightarrow> service \<Rightarrow> service" where
  "emit_error p s =
     (if p < length (children s) then fold table_delete (errorListeners (children s ! p)) s
      else s)"

text \<open>
  The cleanup callback invoked by the exit handler of stop call \<open>k\<close> returns: the handler
  goes on and resolves its promise.
\<close>

definition callback_return :: "nat \<Rightarrow> service \<Rightarrow> service" where
  "callback_return k s =
     (if k \<in> set (callbackPending s)
      then resolve k (s\<lparr>callbackPending := remove1 k (callbackPending s)\<rparr>)
      else s)"

text \<open>The callback of the 5-second timer of stop call \<open>k\<close>.\<close>

definition force_kill_timer :: "nat \<Rightarrow> service \<Rightarrow> service" where
  "force_kill_timer k s =
     (if k < length (stopCalls s) \<and> timerPending (stopCalls s ! k) then
        (let c = stopCalls s ! k;
             s1 = s\<lparr>stopCalls := (stopCalls s)[k := c\<lparr>timerPending := False\<rparr>]\<rparr>
         in if isStreamActive s1 (stop_streamId c) then
              resolve k (table_delete (stop_streamId c) (send_signal (stop_process c) SIGKILL s1))
            else s1)
      else s)"

text \<open>The 1-second timer of start call \<open>n\<close>: the call returns true.\<close>

definition grace_elapsed :: "nat \<Rightarrow> service \<Rightarrow> service" where
  "grace_elapsed n s =
     (if n < length (startCalls s) \<and> startCalls s ! n = StartInGrace
      then s\<lparr>startCalls := (startCalls s)[n := StartReturned True]\<rparr>
      else s)"

text \<open>
  The auto-cleanup block of the exit handler of \<open>startStream\<close>, for the oldest block
  started: it reads the stream row, and if the row has a video path it deletes the file
  and clears the path and the active flag of the row.
\<close>

definition run_auto_cleanup :: "unlink_outcome \<Rightarrow> service \<Rightarrow> service" where
  "run_auto_cleanup oc s =
     (case autoPending s of
        [] \<Rightarrow> s
      | k # rest \<Rightarrow>
          (let s1 = s\<lparr>autoPending := rest\<rparr>
           in case streams s1 k of
                None \<Rightarrow> s1
              | Some stream \<Rightarrow>
                  (case stream_videoPath stream of
                     None \<Rightarrow> s1
                   | Some vp \<Rightarrow>
                       if vp = [] then s1
                       else
                         s1\<lparr>files := snd (cleanupStreamFiles oc (files s1) k (Some vp)),
                            streams := (streams s1)
                              (k \<mapsto> stream\<lparr>stream_videoPath := None,
                                            stream_isActive := Some False\<rparr>)\<rparr>)))"

text \<open>
  What can happen next: a call of \<open>startStream\<close> (with what \<open>spawn\<close> will do if the call
  gets that far), of \<open>stopStream\<close> or of \<open>setCleanupCallback\<close>, the \<open>exit\<close> or \<open>error\<close> event
  of a process, a timer, the return of a cleanup callback, or a pending auto-cleanup
  block being carried out.
\<close>

datatype event =
  Start spawn_outcome StreamConfig
| Stop int
| SetCallback
| Exit nat
| Error nat
| Timeout nat
| Grace nat
| CallbackReturn nat
| AutoCleanupRun unlink_outcome

fun step :: "event \<Rightarrow> service \<Rightarrow> service" where
  "step (Start oc config) s =
     (case startStream oc config s of
        (r, s1) \<Rightarrow>
          (let n = length (startCalls s1);
               s2 = s1\<lparr>startCalls := startCalls s1 @ [r]\<rparr>
           in case r of
                StartAwaiting k \<Rightarrow>
                  s2\<lparr>stopCalls := (stopCalls s2)
                       [k := (stopCalls s2 ! k)\<lparr>awaiting := Some (n, oc, config)\<rparr>]\<rparr>
              | _ \<Rightarrow> s2))"
| "step (Stop streamId') s = snd (stopStream s streamId')"
| "step SetCallback s = setCleanupCallback s"
| "step (Exit p) s = emit_exit p s"
| "step (Error p) s = emit_error p s"
| "step (Timeout k) s = force_kill_timer k s"
| "step (Grace n) s = grace_elapsed n s"
| "step (CallbackReturn k) s = callback_return k s"
| "step (AutoCleanupRun oc) s = run_auto_cleanup oc s"

definition run :: "event list \<Rightarrow> service \<Rightarrow> service" where
  "run evs s = fold step evs s"

text \<open>
  The state the scenarios start from: the video of \<open>scenario_config\<close> is on disk and row 7
  refers to it.
\<close>

definition scenario_rows :: "int \<Rightarrow> Stream option" where
  "scenario_rows =
     (\<lambda>_. None)(7 \<mapsto> \<lparr>stream_videoPath = Some ''uploads/clip.mp4'',
                         stream_isActive = Some False\<rparr>)"

definition scenario_init :: service where
  "scenario_init = init {''uploads/clip.mp4''} scenario_rows"

text \<open>
  What happens when the operator starts stream 7 twice, with a cleanup callback
  registered: the second call finds the first encoder and stops it. In \<open>restart_trace\<close>
  the first encoder exits on \<open>SIGTERM\<close>, the callback returns, the second call spawns and
  returns, and the 5-second timer of the stop fires afterwards. In
  \<open>forced_restart_trace\<close> the first encoder ignores \<open>SIGTERM\<close>, the timer kills it, and its
  \<open>exit\<close> event arrives after the second encoder was spawned. In \<open>slow_callback_trace\<close>
  the callback returns only after the auto-cleanup block of the first encoder has deleted
  the video.
\<close>

definition restart_trace :: "event list" where
  "restart_trace =
     [SetCallback, Start SpawnOk scenario_config, Grace 0,
      Start SpawnOk scenario_config, Exit 0, CallbackReturn 0, Grace 1, Timeout 0]"

definition forced_restart_trace :: "event list" where
  "forced_restart_trace =
     [SetCallback, Start SpawnOk scenario_config, Grace 0,
      Start SpawnOk scenario_config, Timeout 0, Grace 1, Exit 0]"

definition slow_callback_trace :: "event list" where
  "slow_callback_trace =
     [SetCallback, Start SpawnOk scenario_config, Grace 0,
      Start SpawnOk scenario_config, Exit 0, AutoCleanupRun UnlinkOk, CallbackReturn 0,
      Timeout 0]"




definition stop_race_trace :: "event list" where
  "stop_race_trace = [SetCallback, Start SpawnOk scenario_config, Grace 0, Stop 7, Stop 7]"

definition two_streams_trace :: "event list" where
  "two_streams_trace =
     [Start SpawnOk scenario_config, Grace 0,
      Start SpawnOk (scenario_config\<lparr>id' := 8\<rparr>), Grace 1]"

text \<open>
  The calls of \<open>stopStream\<close> that found process \<open>p\<close>, by the number of their promise, in
  the order they were made.
\<close>

definition stops_of :: "nat list \<Rightarrow> nat \<Rightarrow> nat list" where
  "stops_of sp p = filter (\<lambda>n. sp ! n = p) [0..<length sp]"

definition stops_on :: "service \<Rightarrow> nat \<Rightarrow> nat list" where
  "stops_on s p = stops_of (map stop_process (stopCalls s)) p"

text \<open>
  The shape of the state that every course of events keeps: the keys of the handle table
  are distinct; the exit listeners of a process are the listener of the \<open>startStream\<close>
  that spawned it, for some id, followed by one listener of \<open>stopStream\<close> for the same id
  for every stop call that found the process, and its only error listener is for that
  id; a handle stored under an id is a process spawned for that id; and a stop call
  refers to a process that was spawned.
\<close>

definition wf_table ::
  "(int \<times> nat) list \<Rightarrow> listener list list \<Rightarrow> int list list \<Rightarrow> nat list \<Rightarrow> bool" where
  "wf_table tab lt et sp \<longleftrightarrow>
     distinct (map fst tab) \<and> length et = length lt \<and>
     (\<forall>p < length lt. \<exists>k. lt ! p = StartExit k # map (StopExit k) (stops_of sp p) \<and>
                           et ! p = [k]) \<and>
     (\<forall>k p. map_of tab k = Some p \<longrightarrow> p < length lt \<and> (\<exists>ls. lt ! p = StartExit k # ls)) \<and>
     (\<forall>n < length sp. sp ! n < length lt)"

definition listener_table :: "service \<Rightarrow> listener list list" where
  "listener_table s = map exitListeners (children s)"

definition error_table :: "service \<Rightarrow> int list list" where
  "error_table s = map errorListeners (children s)"

definition stop_processes :: "service \<Rightarrow> nat list" where
  "stop_processes s = map stop_process (stopCalls s)"

definition wf :: "service \<Rightarrow> bool" where
  "wf s \<longleftrightarrow> wf_table (activeStreams s) (listener_table s) (error_table s) (stop_processes s)"

text \<open>
  Every course of events also keeps this: a call of \<open>startStream\<close> suspended on the promise
  of a stop call is one of the calls made so far.
\<close>

definition awaited_ok :: "service \<Rightarrow> bool" where
  "awaited_ok s \<longleftrightarrow>
     (\<forall>j < length (stopCalls s). \<forall>n oc config.
        awaiting (stopCalls s ! j) = Some (n, oc, config) \<longrightarrow> n < length (startCalls s))"

text \<open>The cleanup runs that one exit listener makes.\<close>

fun runs_of :: "bool \<Rightarrow> listener \<Rightarrow> cleanup_run list" where
  "runs_of cb (StartExit k) = [AutoCleanup k]"
| "runs_of cb (StopExit k n) = (if cb then [CallbackCleanup k] else [])"

definition shape ::
  "service \<Rightarrow> (int \<times> nat) list \<times> listener list list \<times> int list list \<times> nat list" where
  "shape s = (activeStreams s, listener_table s, error_table s, stop_processes s)"

text \<open>The auto-cleanup block that one exit listener starts.\<close>

fun blocks_of :: "listener \<Rightarrow> int list" where
  "blocks_of (StartExit k) = [k]"
| "blocks_of (StopExit k n) = []"



definition stopped_twice :: service where
  "stopped_twice = run (stop_race_trace @ [Error 0]) scenario_init"

definition exited_once :: service where
  "exited_once = run [Start SpawnOk scenario_config, Grace 0, Exit 0] scenario_init"

definition exited_again :: service where
  "exited_again =
     run [Start SpawnOk scenario_config, Grace 0, Exit 0, Start SpawnOk scenario_config,
          Grace 1, Exit 1, AutoCleanupRun UnlinkOk] scenario_init"

section \<open>The stats timer of \<open>registerRoutes\<close> (\<open>server/routes.ts\<close>)\<close>

text \<open>
  The timer callback of \<open>registerRoutes\<close>: it asks the service for the ids of the active
  streams and runs the loop over them.
\<close>

definition stats_tick ::
  "(int \<Rightarrow> int \<times> int) \<Rightarrow> int \<Rightarrow> service \<Rightarrow> stats_table \<Rightarrow> stats_table \<times> message list" where
  "stats_tick rnd now s tbl =
     (let activeStreamIds = getActiveStreamIds s
      in stats_tick_loop rnd now activeStreamIds (tbl, []))"

section \<open>Properties of the file manager\<close>

lemma to_lower_char_slash: "to_lower_char c = CHR ''/'' \<longleftrightarrow> c = CHR ''/''"
  by (simp add: to_lower_char_def upper_letters_def lower_letters_def)

lemma to_lower_char_dot: "to_lower_char c = CHR ''.'' \<longleftrightarrow> c = CHR ''.''"
  by (simp add: to_lower_char_def upper_letters_def lower_letters_def)

lemma extname_loop_map:
  assumes "\<And>c. f c = CHR ''/'' \<longleftrightarrow> c = CHR ''/''" and "\<And>c. f c = CHR ''.'' \<longleftrightarrow> c = CHR ''.''"
  shows "extname_loop (map f xs) st = extname_loop xs st"
  using assms by (induction xs arbitrary: st) (simp_all add: Let_def)

lemma js_slice_map: "js_slice (map f s) a b = map f (js_slice s a b)"
  by (simp add: js_slice_def Let_def take_map drop_map)

lemma extname_map:
  assumes "\<And>c. f c = CHR ''/'' \<longleftrightarrow> c = CHR ''/''" and "\<And>c. f c = CHR ''.'' \<longleftrightarrow> c = CHR ''.''"
  shows "extname (map f p) = map f (extname p)"
  by (simp add: extname_def ext_result_def rev_map extname_loop_map[OF assms] js_slice_map)

lemma extname_toLowerCase: "extname (toLowerCase p) = toLowerCase (extname p)"
  unfolding toLowerCase_def by (rule extname_map) (simp_all add: to_lower_char_slash to_lower_char_dot)

lemma extname_loop_end_fixed: "end' st \<noteq> - 1 \<Longrightarrow> end' (extname_loop xs st) = end' st"
  by (induction xs arbitrary: st) (simp_all add: Let_def)

lemma extname_loop_startDot_fixed: "startDot st \<noteq> - 1 \<Longrightarrow> startDot (extname_loop xs st) = startDot st"
  by (induction xs arbitrary: st) (simp_all add: Let_def)

lemma extname_loop_startDot_range:
  "startDot st = - 1 \<Longrightarrow>
     startDot (extname_loop xs st) = - 1 \<or>
     (0 \<le> startDot (extname_loop xs st) \<and> startDot (extname_loop xs st) < int (length xs))"
proof (induction xs arbitrary: st)
  case Nil
  then show ?case by simp
next
  case (Cons code rest)
  show ?case
  proof (cases "code = CHR ''/''")
    case True
    then show ?thesis using Cons.prems Cons.IH[of st] by (auto simp: Let_def)
  next
    case nslash: False
    let ?st1 = "if end' st = - 1 then st\<lparr>matchedSlash := False, end' := int (length rest) + 1\<rparr> else st"
    show ?thesis
    proof (cases "code = CHR ''.''")
      case True
      have "startDot (extname_loop (code # rest) st) = int (length rest)"
        using True Cons.prems by (simp add: Let_def extname_loop_startDot_fixed)
      then show ?thesis by simp
    next
      case False
      have "extname_loop (code # rest) st = extname_loop rest ?st1"
        using False nslash Cons.prems by (simp add: Let_def)
      moreover have "startDot ?st1 = - 1" using Cons.prems by simp
      ultimately show ?thesis using Cons.IH[of ?st1] by force
    qed
  qed
qed

lemma extname_loop_clean_run:
  "list_all clean ys \<Longrightarrow> end' st \<noteq> - 1 \<Longrightarrow> startDot st = - 1 \<Longrightarrow>
     extname_loop (ys @ xs) st = extname_loop xs st"
  by (induction ys arbitrary: st) (simp_all add: Let_def clean_def)

lemma extname_loop_clean_first:
  assumes "list_all clean ys" "ys \<noteq> []" "end' st = - 1" "startDot st = - 1"
  shows "extname_loop (ys @ xs) st =
           extname_loop xs (st\<lparr>matchedSlash := False, end' := int (length ys + length xs)\<rparr>)"
proof (cases ys)
  case Nil
  then show ?thesis using assms by simp
next
  case (Cons c cs)
  then have c: "c \<noteq> CHR ''.''" "c \<noteq> CHR ''/''" and cs: "list_all clean cs"
    using assms(1) by (simp_all add: clean_def)
  let ?st' = "st\<lparr>matchedSlash := False, end' := int (length ys + length xs)\<rparr>"
  have "extname_loop (ys @ xs) st = extname_loop (cs @ xs) ?st'"
    using Cons c assms(3,4) by (simp add: Let_def ac_simps)
  also have "\<dots> = extname_loop xs ?st'"
    using cs assms(4) by (intro extname_loop_clean_run) simp_all
  finally show ?thesis .
qed

lemma extname_loop_predot:
  assumes "startDot st \<noteq> - 1" "end' st \<noteq> - 1" "\<not> matchedSlash st"
    "preDotState st = - 1 \<or> preDotState st = 1" "startPart st = 0"
  shows "(preDotState (extname_loop xs st) = - 1 \<or> preDotState (extname_loop xs st) = 1) \<and>
         (startPart (extname_loop xs st) = int (length xs) \<longrightarrow>
            preDotState (extname_loop xs st) = preDotState st) \<and>
         startPart (extname_loop xs st) \<le> int (length xs)"
  using assms
proof (induction xs arbitrary: st)
  case Nil
  then show ?case by simp
next
  case (Cons code rest)
  show ?case
  proof (cases "code = CHR ''/''")
    case True
    then show ?thesis using Cons.prems by (simp add: Let_def)
  next
    case False
    let ?st2 = "if code = CHR ''.'' then (if preDotState st \<noteq> 1 then st\<lparr>preDotState := 1\<rparr> else st)
                else st\<lparr>preDotState := - 1\<rparr>"
    have eq: "extname_loop (code # rest) st = extname_loop rest ?st2"
      using False Cons.prems by (simp add: Let_def)
    have "startDot ?st2 \<noteq> - 1" "end' ?st2 \<noteq> - 1" "\<not> matchedSlash ?st2"
      "preDotState ?st2 = - 1 \<or> preDotState ?st2 = 1" "startPart ?st2 = 0"
      using Cons.prems by auto
    from Cons.IH[OF this] show ?thesis unfolding eq by auto
  qed
qed


lemma js_slice_suffix:
  "0 \<le> a \<Longrightarrow> a \<le> int (length s) \<Longrightarrow> js_slice s a (int (length s)) = drop (nat a) s"
  by (simp add: js_slice_def Let_def)

text \<open>An extension put after a character that is neither a dot nor a slash is found again.\<close>

lemma extname_append_ext:
  assumes c: "clean c" and rest: "list_all clean rest"
  shows "extname (body @ [c] @ CHR ''.'' # rest) = CHR ''.'' # rest"
proof -
  let ?p = "body @ [c] @ CHR ''.'' # rest"
  let ?n = "int (length ?p)"
  let ?sd = "int (length body) + 1"
  let ?stc = "\<lparr>startDot = ?sd, startPart = 0, end' = ?n, matchedSlash = False, preDotState = - 1\<rparr>"
  have c': "c \<noteq> CHR ''.''" "c \<noteq> CHR ''/''" using c by (simp_all add: clean_def)
  have scan: "extname_loop (rev ?p) ext_init = extname_loop (rev body) ?stc"
  proof (cases "rest = []")
    case True
    then show ?thesis using c' by (simp add: ext_init_def Let_def ac_simps)
  next
    case False
    have "extname_loop (rev rest @ (CHR ''.'' # c # rev body)) ext_init =
            extname_loop (CHR ''.'' # c # rev body)
              (ext_init\<lparr>matchedSlash := False,
                 end' := int (length (rev rest) + length (CHR ''.'' # c # rev body))\<rparr>)"
      using False rest by (intro extname_loop_clean_first) (simp_all add: ext_init_def list_all_iff)
    then show ?thesis using c' by (simp add: ext_init_def Let_def ac_simps)
  qed
  let ?st = "extname_loop (rev body) ?stc"
  have sd: "startDot ?st = ?sd" by (simp add: extname_loop_startDot_fixed)
  have en: "end' ?st = ?n" by (simp add: extname_loop_end_fixed)
  have pd: "(preDotState ?st = - 1 \<or> preDotState ?st = 1) \<and>
            (startPart ?st = int (length (rev body)) \<longrightarrow> preDotState ?st = preDotState ?stc) \<and>
            startPart ?st \<le> int (length (rev body))"
    by (rule extname_loop_predot) simp_all
  have "ext_result ?p ?st = js_slice ?p ?sd ?n"
    using sd en pd unfolding ext_result_def by auto
  also have "\<dots> = drop (nat ?sd) ?p"
    by (rule js_slice_suffix) simp_all
  also have "\<dots> = CHR ''.'' # rest"
    by (simp add: nat_add_distrib)
  finally show ?thesis using scan by (simp add: extname_def)
qed

text \<open>After a tail without dot or slash, an extension contains the whole tail.\<close>

lemma extname_append_clean:
  assumes tail: "list_all clean tail" "tail \<noteq> []"
  shows "extname (body @ tail) = [] \<or>
         (\<exists>k < length body. extname (body @ tail) = drop k body @ tail)"
proof -
  let ?p = "body @ tail"
  let ?st0 = "ext_init\<lparr>matchedSlash := False, end' := int (length (rev tail) + length (rev body))\<rparr>"
  define st where "st = extname_loop (rev body) ?st0"
  define sd where "sd = startDot st"
  have scan: "extname_loop (rev ?p) ext_init = st"
    unfolding st_def using tail by (simp add: extname_loop_clean_first ext_init_def list_all_iff)
  have en: "end' st = int (length ?p)"
    unfolding st_def by (simp add: extname_loop_end_fixed add.commute)
  have "startDot st = - 1 \<or> (0 \<le> startDot st \<and> startDot st < int (length (rev body)))"
    unfolding st_def by (rule extname_loop_startDot_range) (simp add: ext_init_def)
  then have "sd = - 1 \<or> (0 \<le> sd \<and> sd < int (length body))"
    by (simp add: sd_def)
  then show ?thesis
  proof
    assume "sd = - 1"
    then show ?thesis using scan by (simp add: extname_def ext_result_def sd_def)
  next
    assume r: "0 \<le> sd \<and> sd < int (length body)"
    then have k: "nat sd < length body" by arith
    have "js_slice ?p sd (int (length ?p)) = drop (nat sd) ?p"
      using r by (intro js_slice_suffix) simp_all
    then have "ext_result ?p st = [] \<or> ext_result ?p st = drop (nat sd) body @ tail"
      using k en by (simp add: ext_result_def sd_def)
    then show ?thesis using scan k by (auto simp: extname_def)
  qed
qed

lemma extname_no_dot: "CHR ''.'' \<notin> set p \<Longrightarrow> extname p = []"
proof -
  have "CHR ''.'' \<notin> set xs \<Longrightarrow> startDot st = - 1 \<Longrightarrow> startDot (extname_loop xs st) = - 1" for xs st
    by (induction xs arbitrary: st) (auto simp: Let_def)
  from this[of "rev p" ext_init] show "CHR ''.'' \<notin> set p \<Longrightarrow> extname p = []"
    by (simp add: extname_def ext_result_def ext_init_def)
qed


lemma ext_inv_fin: "ext_inv p n st \<Longrightarrow> ext_fin p st"
  by (auto simp: ext_inv_def ext_fin_def)

lemma ext_inv_step:
  assumes inv: "ext_inv p (Suc n) st" and code: "p ! n = code" "code \<noteq> CHR ''/''"
    and n: "n < length p"
  shows "ext_inv p n
     (let st1 = (if end' st = - 1 then st\<lparr>matchedSlash := False, end' := int n + 1\<rparr> else st)
      in (if code = CHR ''.'' then
                      (if startDot st1 = - 1 then st1\<lparr>startDot := int n\<rparr>
                       else if preDotState st1 \<noteq> 1 then st1\<lparr>preDotState := 1\<rparr>
                       else st1)
                    else if startDot st1 \<noteq> - 1 then st1\<lparr>preDotState := - 1\<rparr>
                    else st1))"
proof -
  have split: "n \<le> j \<Longrightarrow> j = n \<or> Suc n \<le> j" for j by arith
  show ?thesis
  proof (cases "end' st = - 1")
    case True
    then show ?thesis using inv code n
      by (auto simp: ext_inv_def clean_def Let_def dest: split)
  next
    case e: False
    show ?thesis
    proof (cases "startDot st = - 1")
      case True
      then show ?thesis using e inv code n
        by (auto simp: ext_inv_def clean_def Let_def dest: split)
    next
      case False
      then show ?thesis using e inv code n
        by (auto simp: ext_inv_def clean_def Let_def)
    qed
  qed
qed

lemma extname_loop_inv:
  "p = rev xs @ ys \<Longrightarrow> ext_inv p (length xs) st \<Longrightarrow> ext_fin p (extname_loop xs st)"
proof (induction xs arbitrary: ys st)
  case Nil
  then show ?case by (simp add: ext_inv_fin)
next
  case (Cons code rest)
  have at: "p ! length rest = code" using Cons.prems(1) by (simp add: nth_append)
  have len: "length rest < length p" using Cons.prems(1) by simp
  have p: "p = rev rest @ (code # ys)" using Cons.prems(1) by simp
  show ?case
  proof (cases "code = CHR ''/''")
    case True
    show ?thesis
    proof (cases "matchedSlash st")
      case ms: True
      then have "ext_inv p (length rest) st" using Cons.prems(2) by (auto simp: ext_inv_def)
      from Cons.IH[OF p this] show ?thesis using True ms by simp
    next
      case False
      have "ext_fin p (st\<lparr>startPart := int (length rest) + 1\<rparr>)"
        using ext_inv_fin[OF Cons.prems(2)] by (simp add: ext_fin_def)
      then show ?thesis using True False by simp
    qed
  next
    case False
    from Cons.prems(2) have "ext_inv p (Suc (length rest)) st" by simp
    from ext_inv_step[OF this at False len] Cons.IH[OF p] show ?thesis
      using False by (simp add: Let_def)
  qed
qed


lemma slice_shape:
  assumes "a < b" "b \<le> length p" "p ! a = CHR ''.''" "\<forall>j. a < j \<and> j < b \<longrightarrow> clean (p ! j)"
  shows "\<exists>rest. take (b - a) (drop a p) = CHR ''.'' # rest \<and> list_all clean rest"
proof -
  have a: "a < length p" using assms by simp
  obtain m where m: "b - a = Suc m" using assms(1) by (cases "b - a") simp_all
  have "take (b - a) (drop a p) = p ! a # take m (drop (Suc a) p)"
    unfolding m using Cons_nth_drop_Suc[OF a, symmetric] by simp
  moreover have "list_all clean (take m (drop (Suc a) p))"
    unfolding list_all_length
  proof (intro allI impI)
    fix i assume "i < length (take m (drop (Suc a) p))"
    then have i: "i < m" "Suc a + i < length p" by (simp, simp, arith)
    then have "take m (drop (Suc a) p) ! i = p ! (Suc a + i)" by simp
    moreover have "clean (p ! (Suc a + i))" using assms(4) i m by simp
    ultimately show "clean (take m (drop (Suc a) p) ! i)" by simp
  qed
  ultimately show ?thesis using assms(3) by simp
qed

text \<open>A non-empty extension is a dot followed by characters that are neither dot nor slash.\<close>

lemma extname_shape:
  assumes "extname p \<noteq> []"
  shows "\<exists>rest. extname p = CHR ''.'' # rest \<and> list_all clean rest"
proof -
  define st where "st = extname_loop (rev p) ext_init"
  define sd where "sd = startDot st"
  define en where "en = end' st"
  have "ext_inv p (length (rev p)) ext_init" by (simp add: ext_inv_def ext_init_def)
  then have "ext_fin p st" unfolding st_def by (intro extname_loop_inv[where ys = "[]"]) simp_all
  moreover have ne: "sd \<noteq> - 1" "en \<noteq> - 1" and res: "extname p = js_slice p sd en"
    using assms by (auto simp: extname_def ext_result_def st_def sd_def en_def split: if_splits)
  ultimately have f: "0 \<le> sd" "sd < en" "en \<le> int (length p)" "p ! nat sd = CHR ''.''"
    "\<forall>j. sd < int j \<and> int j < en \<longrightarrow> clean (p ! j)"
    by (simp_all add: ext_fin_def sd_def en_def)
  have "js_slice p sd en = take (nat en - nat sd) (drop (nat sd) p)"
    using f(1-3) by (simp add: js_slice_def Let_def nat_diff_distrib)
  moreover have "\<exists>rest. take (nat en - nat sd) (drop (nat sd) p) = CHR ''.'' # rest \<and> list_all clean rest"
  proof (rule slice_shape)
    show "nat sd < nat en" using f(1,2) by simp
    show "nat en \<le> length p" using f(3) by simp
    show "p ! nat sd = CHR ''.''" by (rule f(4))
    show "\<forall>j. nat sd < j \<and> j < nat en \<longrightarrow> clean (p ! j)"
    proof (intro allI impI)
      fix j assume "nat sd < j \<and> j < nat en"
      then have "sd < int j \<and> int j < en" using f(1) by arith
      then show "clean (p ! j)" using f(5) by simp
    qed
  qed
  ultimately show ?thesis using res by simp
qed

lemma show_nat_clean: "list_all clean (show_nat n)"
proof (induction n rule: show_nat.induct)
  case (1 n)
  have d: "clean (digit_char k)" for k
  proof -
    have "''0123456789'' ! (k mod 10) \<in> set ''0123456789''"
      by (rule nth_mem) simp
    then show ?thesis unfolding digit_char_def clean_def by auto
  qed
  show ?case using 1 d by (subst show_nat.simps) simp
qed

lemma show_int_no_dot: "CHR ''.'' \<notin> set (show_int i)"
  using show_nat_clean by (auto simp: show_int_def list_all_iff clean_def)

lemma random_clean:
  assumes "is_random36 r"
  shows "list_all clean (substring r 2 8)"
proof -
  have b: "c \<in> set base36_digits \<Longrightarrow> clean c" for c
    by (auto simp: base36_digits_def clean_def)
  from assms have "list_all (\<lambda>c. c \<in> set base36_digits) (drop 2 r)"
    by (auto simp: is_random36_def)
  then have "list_all clean (drop 2 r)" using b by (auto simp: list_all_iff)
  then show ?thesis by (auto simp: substring_def list_all_iff dest: in_set_takeD)
qed

lemma allowed_clean_tail: "e \<in> set allowedExtensions \<Longrightarrow> CHR ''_'' \<notin> set e"
  by (auto simp: allowedExtensions_def)

lemma to_lower_char_underscore: "to_lower_char c = CHR ''_'' \<longleftrightarrow> c = CHR ''_''"
  by (simp add: to_lower_char_def upper_letters_def lower_letters_def)


lemma not_valid_underscore:
  assumes "CHR ''_'' \<in> set e"
  shows "toLowerCase e \<notin> set allowedExtensions"
proof
  assume "toLowerCase e \<in> set allowedExtensions"
  then have "CHR ''_'' \<notin> set (toLowerCase e)" by (rule allowed_clean_tail)
  moreover have "CHR ''_'' \<in> set (toLowerCase e)"
    using assms to_lower_char_underscore[of "CHR ''_''"] by (force simp: toLowerCase_def image_iff)
  ultimately show False by simp
qed

text \<open>
  Claim C10. \<open>generateUniqueFilename\<close> returns a name that ends with the extension of the
  original name, and renaming keeps the verdict of \<open>isValidVideoFile\<close>. This holds for
  every original name, and every timestamp and random token the runtime can produce; when
  the base name holds no dot, the extension of the new name is the extension of the
  original one.
\<close>

theorem generateUniqueFilename_keeps_validity:
  assumes "is_random36 random36"
  shows "(\<exists>stem. generateUniqueFilename ts random36 name = stem @ extname name) \<and>
         isValidVideoFile (generateUniqueFilename ts random36 name) = isValidVideoFile name \<and>
         (CHR ''.'' \<notin> set (basename name (extname name)) \<longrightarrow>
            extname (generateUniqueFilename ts random36 name) = extname name)"
proof -
  define ext where "ext = extname name"
  define body where "body = basename name ext @ ''_'' @ show_int ts"
  define tail where "tail = ''_'' @ substring random36 2 8"
  have gen: "generateUniqueFilename ts random36 name = body @ tail @ ext"
    by (simp add: generateUniqueFilename_def Let_def ext_def body_def tail_def)
  have tail: "list_all clean tail" "tail \<noteq> []" "CHR ''_'' \<in> set tail"
    using random_clean[OF assms] by (simp_all add: tail_def clean_def)
  have stem: "\<exists>stem. body @ tail @ ext = stem @ ext" by (intro exI[of _ "body @ tail"]) simp
  show ?thesis
  proof (cases "ext = []")
    case True
    have inv: "\<not> isValidVideoFile name"
      using True by (simp add: isValidVideoFile_def ext_def[symmetric] toLowerCase_def allowedExtensions_def)
    from extname_append_clean[OF tail(1,2), of body]
    have "\<not> isValidVideoFile (body @ tail)"
    proof
      assume "extname (body @ tail) = []"
      then show ?thesis by (simp add: isValidVideoFile_def toLowerCase_def allowedExtensions_def)
    next
      assume "\<exists>k<length body. extname (body @ tail) = drop k body @ tail"
      then obtain k where "extname (body @ tail) = drop k body @ tail" by blast
      then have "CHR ''_'' \<in> set (extname (body @ tail))" using tail(3) by simp
      then show ?thesis by (simp add: isValidVideoFile_def not_valid_underscore)
    qed
    moreover have "CHR ''.'' \<notin> set (basename name ext) \<longrightarrow> extname (body @ tail) = []"
    proof
      assume "CHR ''.'' \<notin> set (basename name ext)"
      then have "CHR ''.'' \<notin> set (body @ tail)"
        using tail(1) show_int_no_dot[of ts] by (auto simp: body_def list_all_iff clean_def)
      then show "extname (body @ tail) = []" by (rule extname_no_dot)
    qed
    ultimately show ?thesis using True inv stem unfolding gen ext_def[symmetric] by simp
  next
    case False
    then obtain rest where rest: "ext = CHR ''.'' # rest" "list_all clean rest"
      using extname_shape[of name] by (auto simp: ext_def)
    obtain t' c where tc: "tail = t' @ [c]"
      using tail(2) by (cases tail rule: rev_cases) auto
    have "clean c" using tail(1) tc by simp
    then have "extname ((body @ t') @ [c] @ CHR ''.'' # rest) = CHR ''.'' # rest"
      using rest(2) by (rule extname_append_ext)
    then have "extname (body @ tail @ ext) = ext"
      unfolding tc rest(1) by simp
    then show ?thesis using stem unfolding gen ext_def[symmetric] by (simp add: isValidVideoFile_def ext_def)
  qed
qed

theorem generateUniqueFilename_keeps_validity_witness:
  "is_random36 ''0.4fzyo82mvyr'' \<and>
   generateUniqueFilename 1700000000000 ''0.4fzyo82mvyr'' ''Holiday Clip.MP4'' =
     ''Holiday Clip_1700000000000_4fzyo8.MP4'' \<and>
   isValidVideoFile ''Holiday Clip_1700000000000_4fzyo8.MP4'' \<and>
   isValidVideoFile ''Holiday Clip.MP4'' \<and>
   CHR ''.'' \<notin> set (basename ''Holiday Clip.MP4'' (extname ''Holiday Clip.MP4'')) \<and>
   extname ''Holiday Clip_1700000000000_4fzyo8.MP4'' = extname ''Holiday Clip.MP4''"
proof -
  have r: "is_random36 ''0.4fzyo82mvyr''"
    by (simp add: is_random36_def base36_digits_def)
  have e: "extname ''Holiday Clip.MP4'' = ''.MP4''" by code_simp
  have bn: "basename ''Holiday Clip.MP4'' ''.MP4'' = ''Holiday Clip''" by code_simp
  have ts: "show_int 1700000000000 = ''1700000000000''"
    by (simp add: show_int_def show_nat.simps digit_char_def)
  have g: "generateUniqueFilename 1700000000000 ''0.4fzyo82mvyr'' ''Holiday Clip.MP4'' =
     ''Holiday Clip_1700000000000_4fzyo8.MP4''"
    by (simp add: generateUniqueFilename_def e bn ts substring_def)
  have v: "isValidVideoFile ''Holiday Clip.MP4''" by code_simp
  have b: "CHR ''.'' \<notin> set (basename ''Holiday Clip.MP4'' (extname ''Holiday Clip.MP4''))"
    by (simp add: e bn)
  from generateUniqueFilename_keeps_validity[OF r, of 1700000000000 "''Holiday Clip.MP4''"]
  show ?thesis using r g v b by simp
qed

subsection \<open>\<open>isValidVideoFile\<close>\<close>

text \<open>
  Claim C9. \<open>isValidVideoFile\<close> does not depend on letter case: two file names that are
  equal up to the case of their letters (in particular, a name and the same name with the
  case of its extension changed) get the same verdict, and the verdict is the membership
  of the lower-cased extension in the fixed list of five extensions.
\<close>

theorem isValidVideoFile_case_insensitive:
  assumes "toLowerCase name' = toLowerCase name"
  shows "isValidVideoFile name' = isValidVideoFile name \<and>
         (isValidVideoFile name \<longleftrightarrow>
            toLowerCase (extname name) \<in> {''.mp4'', ''.mov'', ''.avi'', ''.mkv'', ''.webm''})"
proof -
  have v: "isValidVideoFile n \<longleftrightarrow> extname (toLowerCase n) \<in> set allowedExtensions" for n
    by (simp add: isValidVideoFile_def extname_toLowerCase)
  have same: "isValidVideoFile name' = isValidVideoFile name"
    unfolding v assms ..
  have "isValidVideoFile name \<longleftrightarrow>
          toLowerCase (extname name) \<in> {''.mp4'', ''.mov'', ''.avi'', ''.mkv'', ''.webm''}"
    by (simp add: isValidVideoFile_def allowedExtensions_def Let_def)
  with same show ?thesis by (rule conjI)
qed

theorem isValidVideoFile_case_insensitive_witness:
  "toLowerCase ''Clip.MkV'' = toLowerCase ''clip.mkv'' \<and>
   isValidVideoFile ''Clip.MkV'' = isValidVideoFile ''clip.mkv'' \<and>
   isValidVideoFile ''clip.mkv'' \<and>
   toLowerCase (extname ''clip.mkv'') = ''.mkv''"
proof -
  have l: "toLowerCase ''Clip.MkV'' = toLowerCase ''clip.mkv''"
    by (simp add: toLowerCase_def to_lower_char_def upper_letters_def lower_letters_def)
  have e: "toLowerCase (extname ''clip.mkv'') = ''.mkv''" by code_simp
  from isValidVideoFile_case_insensitive[OF l] show ?thesis using l e by simp
qed

subsection \<open>\<open>deleteFile\<close>\<close>

text \<open>
  Claim C8. \<open>deleteFile\<close> on a path that does not exist returns false (the result is a
  boolean in every branch: nothing is raised) and leaves the file system as it is; after a
  deletion that returned true, deleting the same path again returns false and leaves the
  file system as it is, whatever \<open>unlink\<close> would do.
\<close>

theorem deleteFile_idempotent:
  "(filePath \<notin> fs \<longrightarrow> deleteFile oc fs filePath = (False, fs)) \<and>
   (fst (deleteFile oc fs filePath) \<longrightarrow>
      deleteFile oc' (snd (deleteFile oc fs filePath)) filePath =
        (False, snd (deleteFile oc fs filePath)))"
  by (cases oc) (simp_all add: deleteFile_def)

theorem deleteFile_idempotent_witness:
  "''uploads/b.mp4'' \<notin> {''uploads/a.mp4''} \<and>
   deleteFile UnlinkOk {''uploads/a.mp4''} ''uploads/b.mp4'' = (False, {''uploads/a.mp4''}) \<and>
   fst (deleteFile UnlinkOk {''uploads/a.mp4''} ''uploads/a.mp4'') \<and>
   deleteFile UnlinkOk (snd (deleteFile UnlinkOk {''uploads/a.mp4''} ''uploads/a.mp4''))
     ''uploads/a.mp4'' = (False, {})"
proof -
  have a: "''uploads/b.mp4'' \<notin> {''uploads/a.mp4''}" by simp
  have b: "deleteFile UnlinkOk {''uploads/a.mp4''} ''uploads/a.mp4'' = (True, {})"
    by (simp add: deleteFile_def)
  from deleteFile_idempotent[of "''uploads/b.mp4''" "{''uploads/a.mp4''}" UnlinkOk UnlinkOk]
    deleteFile_idempotent[of "''uploads/a.mp4''" "{''uploads/a.mp4''}" UnlinkOk UnlinkOk]
  show ?thesis using a b by simp
qed

section \<open>Properties of the encoder arguments\<close>

lemma digit_val_digit_char: "k < 10 \<Longrightarrow> digit_val (digit_char k) = Some k"
proof -
  assume "k < 10"
  then have "k = 0 \<or> k = 1 \<or> k = 2 \<or> k = 3 \<or> k = 4 \<or> k = 5 \<or> k = 6 \<or> k = 7 \<or> k = 8 \<or> k = 9"
    by arith
  then show ?thesis by (auto simp: digit_val_def digit_char_def)
qed

lemma parse_digits_append:
  "parse_digits (xs @ ys) acc =
     (case parse_digits xs acc of None \<Rightarrow> None | Some a \<Rightarrow> parse_digits ys a)"
  by (induction xs arbitrary: acc) (auto split: option.splits)

lemma parse_digits_show_nat: "parse_digits (show_nat n) 0 = Some n"
proof (induction n rule: show_nat.induct)
  case (1 n)
  show ?case
  proof (cases "n < 10")
    case True
    then show ?thesis by (subst show_nat.simps) (simp add: digit_val_digit_char)
  next
    case False
    have "parse_digits (show_nat (n div 10) @ [digit_char (n mod 10)]) 0 = Some n"
      using 1[OF False] by (simp add: parse_digits_append digit_val_digit_char)
    then show ?thesis using False by (subst show_nat.simps) simp
  qed
qed

lemma show_nat_nonempty: "show_nat n \<noteq> []"
  by (subst show_nat.simps) simp

lemma show_nat_no_dot: "CHR ''.'' \<notin> set (show_nat n)"
  using show_nat_clean[of n] by (auto simp: list_all_iff clean_def)

lemma takeWhile_show_nat:
  "takeWhile (\<lambda>c. c \<noteq> CHR ''.'') (show_nat n @ CHR ''.'' # ds) = show_nat n"
  "dropWhile (\<lambda>c. c \<noteq> CHR ''.'') (show_nat n @ CHR ''.'' # ds) = CHR ''.'' # ds"
  "takeWhile (\<lambda>c. c \<noteq> CHR ''.'') (show_nat n) = show_nat n"
  "dropWhile (\<lambda>c. c \<noteq> CHR ''.'') (show_nat n) = []"
proof -
  have nd: "\<And>x. x \<in> set (show_nat n) \<Longrightarrow> x \<noteq> CHR ''.''"
    using show_nat_no_dot[of n] by auto
  show "takeWhile (\<lambda>c. c \<noteq> CHR ''.'') (show_nat n @ CHR ''.'' # ds) = show_nat n"
    by (simp add: takeWhile_append2[OF nd])
  show "dropWhile (\<lambda>c. c \<noteq> CHR ''.'') (show_nat n @ CHR ''.'' # ds) = CHR ''.'' # ds"
    by (simp add: dropWhile_append2[OF nd])
  show "takeWhile (\<lambda>c. c \<noteq> CHR ''.'') (show_nat n) = show_nat n"
    using nd by simp
  show "dropWhile (\<lambda>c. c \<noteq> CHR ''.'') (show_nat n) = []"
    using nd by simp
qed

lemma dec_value_number_to_string:
  assumes "0 \<le> v"
  shows "dec_value (number_to_string (of_int v / 100)) = Some (of_int v / 100)"
proof -
  define a where "a = nat v"
  define q where "q = a div 100"
  define r where "r = a mod 100"
  have fl: "\<lfloor>(of_int v :: rat) / 100 * 100\<rfloor> = v" by simp
  have v: "(of_int v :: rat) = of_nat a" using assms by (simp add: a_def)
  have a: "a = 100 * q + r" by (simp add: q_def r_def)
  have r: "r < 100" by (simp add: r_def)
  have val: "(of_int v :: rat) / 100 = of_nat q + of_nat r / 100"
    unfolding v a by simp
  define g where "g = number_to_string (of_int v / 100)"
  have str: "g = show_nat q @
         (if r = 0 then []
          else if r mod 10 = 0 then [CHR ''.'', digit_char (r div 10)]
          else [CHR ''.'', digit_char (r div 10), digit_char (r mod 10)])"
    using assms unfolding g_def number_to_string_def fl by (simp add: Let_def a_def q_def r_def)
  have d1: "r div 10 < 10" using r by simp
  have d2: "r mod 10 < 10" by simp
  consider "r = 0" | "r \<noteq> 0" "r mod 10 = 0" | "r \<noteq> 0" "r mod 10 \<noteq> 0" by blast
  then have "dec_value g = Some (of_nat q + of_nat r / 100)"
  proof cases
    case 1
    then show ?thesis unfolding str
      by (simp add: dec_value_def takeWhile_show_nat parse_digits_show_nat show_nat_nonempty)
  next
    case 2
    have "r = 10 * (r div 10)" using 2(2) by presburger
    then have "(of_nat r :: rat) = 10 * of_nat (r div 10)"
      by (metis of_nat_mult of_nat_numeral)
    then have "(of_nat r :: rat) / 100 = of_nat (r div 10) / 10"
      by simp
    then show ?thesis unfolding str using 2
      by (simp add: dec_value_def takeWhile_show_nat parse_digits_show_nat show_nat_nonempty
          digit_val_digit_char[OF d1])
  next
    case 3
    have "r = 10 * (r div 10) + r mod 10" by simp
    then have "(of_nat r :: rat) = 10 * of_nat (r div 10) + of_nat (r mod 10)"
      by (metis of_nat_add of_nat_mult of_nat_numeral)
    then show ?thesis unfolding str using 3
      by (simp add: dec_value_def takeWhile_show_nat parse_digits_show_nat show_nat_nonempty
          digit_val_digit_char[OF d1] digit_val_digit_char[OF d2])
  qed
  then show ?thesis unfolding g_def val .
qed

lemma videoFilter_mobile:
  "mode config = ''mobile'' \<Longrightarrow>
     videoFilter config =
       ''scale=720:1280:force_original_aspect_ratio=decrease,pad=720:1280:(ow-iw)/2:(oh-ih)/2:black''"
  by (simp add: videoFilter_def)

lemma getQualitySettings_unknown:
  "quality' \<notin> {''360p'', ''480p'', ''720p'', ''1080p''} \<Longrightarrow>
   quality' \<notin> set object_prototype_keys \<Longrightarrow> getQualitySettings quality' = Entry q720"
  by (simp add: getQualitySettings_def settings_get_def settings_def)

lemma getQualitySettings_table:
  "getQualitySettings ''360p'' = Entry q360" "getQualitySettings ''480p'' = Entry q480"
  "getQualitySettings ''720p'' = Entry q720" "getQualitySettings ''1080p'' = Entry q1080"
  by (simp_all add: getQualitySettings_def settings_get_def settings_def)

text \<open>
  Claim C7. A muted configuration gets the gain filter \<open>volume=0\<close>; an unmuted one, with a
  volume in the range 0 to 100 of the data model, gets \<open>volume=\<close> followed by the decimal
  numeral of exactly \<open>volume / 100\<close>; the filter is the argument that follows \<open>-af\<close>.
\<close>

theorem audioFilter_gain:
  "(isMuted config \<longrightarrow> audioFilter config = ''volume=0'') \<and>
   (\<not> isMuted config \<and> 0 \<le> volume config \<and> volume config \<le> 100 \<longrightarrow>
      (\<exists>g. audioFilter config = ''volume='' @ g \<and>
           dec_value g = Some (of_int (volume config) / 100))) \<and>
   (\<exists>pre post. buildFFmpegArgs config = pre @ [Str ''-af'', Str (audioFilter config)] @ post)"
proof (intro conjI impI)
  assume "isMuted config"
  then show "audioFilter config = ''volume=0''" by (simp add: audioFilter_def)
next
  assume a: "\<not> isMuted config \<and> 0 \<le> volume config \<and> volume config \<le> 100"
  then have "dec_value (number_to_string (volumeLevel config)) = Some (of_int (volume config) / 100)"
    unfolding volumeLevel_def by (intro dec_value_number_to_string) simp
  then show "\<exists>g. audioFilter config = ''volume='' @ g \<and>
      dec_value g = Some (of_int (volume config) / 100)"
    using a by (simp add: audioFilter_def)
next
  let ?pre = "(if loopVideo config
               then [Str ''-re'', Str ''-fflags'', Str ''+genpts'', Str ''-stream_loop'', Str ''-1'']
               else [Str ''-re'', Str ''-fflags'', Str ''+genpts'']) @
              [Str ''-i'', Str (videoPath config), Str ''-vf'', Str (videoFilter config)]"
  have "buildFFmpegArgs config = ?pre @ [Str ''-af'', Str (audioFilter config)] @
          drop (length ?pre + 2) (buildFFmpegArgs config)"
    by (simp add: buildFFmpegArgs_def Let_def)
  then show "\<exists>pre post. buildFFmpegArgs config = pre @ [Str ''-af'', Str (audioFilter config)] @ post"
    by blast
qed

theorem audioFilter_gain_witness:
  "isMuted (scenario_config\<lparr>isMuted := True\<rparr>) \<and>
   audioFilter (scenario_config\<lparr>isMuted := True\<rparr>) = ''volume=0'' \<and>
   \<not> isMuted scenario_config \<and> 0 \<le> volume scenario_config \<and> volume scenario_config \<le> 100 \<and>
   audioFilter scenario_config = ''volume=0.5'' \<and> dec_value ''0.5'' = Some (1 / 2)"
proof -
  have m: "isMuted (scenario_config\<lparr>isMuted := True\<rparr>)" by simp
  have u: "\<not> isMuted scenario_config \<and> 0 \<le> volume scenario_config \<and> volume scenario_config \<le> 100"
    by (simp add: scenario_config_def)
  have f: "audioFilter scenario_config = ''volume=0.5''"
    by (simp add: audioFilter_def scenario_config_def volumeLevel_def number_to_string_def
        show_nat.simps digit_char_def)
  from audioFilter_gain[of "scenario_config\<lparr>isMuted := True\<rparr>"] audioFilter_gain[of scenario_config]
  show ?thesis using m u f by (simp add: scenario_config_def)
qed

text \<open>
  Claim C4. The construction is a function of the configuration, and \<open>mobile\<close> mode gets the
  720 by 1280 canvas (\<open>videoFilter_mobile\<close>); a resolution class that is neither in the table
  nor a member of \<open>Object.prototype\<close> gets the 720p entry (\<open>getQualitySettings_unknown\<close>). But
  the class \<open>constructor\<close>, which is not in the table, does not get the 720p defaults: the
  property read finds the inherited member, and the filter and the rate arguments are built
  from \<open>undefined\<close>.
\<close>

theorem getQualitySettings_inherited_key:
  "map_of settings ''constructor'' = None \<and>
   getQualitySettings ''constructor'' = ProtoMember ''constructor'' \<and>
   getQualitySettings ''constructor'' \<noteq> Entry q720 \<and>
   videoFilter (scenario_config\<lparr>quality := ''constructor''\<rparr>) =
     ''scale=undefined:undefined:force_original_aspect_ratio=decrease,pad=undefined:undefined:(ow-iw)/2:(oh-ih)/2:black'' \<and>
   take 4 (drop 15 (buildFFmpegArgs (scenario_config\<lparr>quality := ''constructor''\<rparr>))) =
     [Str ''-maxrate'', Undefined, Str ''-bufsize'', Undefined]"
  by (simp add: getQualitySettings_def settings_get_def settings_def object_prototype_keys_def
      videoFilter_def buildFFmpegArgs_def scenario_config_def template_num_def arg_of_def Let_def)

lemma scenario_args:
  "buildFFmpegArgs scenario_config =
     [Str ''-re'', Str ''-fflags'', Str ''+genpts'', Str ''-i'', Str ''uploads/clip.mp4'',
      Str ''-vf'', Str ''scale=1280:720:force_original_aspect_ratio=decrease,pad=1280:720:(ow-iw)/2:(oh-ih)/2:black'',
      Str ''-af'', Str ''volume=0.5'', Str ''-c:v'', Str ''libx264'', Str ''-preset'', Str ''veryfast'',
      Str ''-tune'', Str ''zerolatency'', Str ''-maxrate'', Str ''3000k'', Str ''-bufsize'', Str ''6000k'',
      Str ''-pix_fmt'', Str ''yuv420p'', Str ''-g'', Str ''60'', Str ''-keyint_min'', Str ''60'',
      Str ''-sc_threshold'', Str ''0'', Str ''-c:a'', Str ''aac'', Str ''-b:a'', Str ''128k'',
      Str ''-ar'', Str ''44100'', Str ''-ac'', Str ''2'', Str ''-f'', Str ''flv'',
      Str ''rtmp://a.rtmp.youtube.com/live2/abcd-1234'']"
  by (simp add: buildFFmpegArgs_def scenario_config_def videoFilter_def audioFilter_def
      getQualitySettings_def settings_get_def settings_def q720_def template_num_def arg_of_def
      show_int_def show_nat.simps digit_char_def volumeLevel_def number_to_string_def Let_def)

section \<open>Properties of the stats timer\<close>

lemma find_Some_mem: "find P xs = Some x \<Longrightarrow> x \<in> set xs"
  by (induction xs) (auto split: if_splits)

lemma update_head_match:
  "streamId s0 = sid \<Longrightarrow>
     snd (updateStreamStats now ((k0, s0) # t) sid f) = (k0, (f s0)\<lparr>updatedAt := Some now\<rparr>) # t"
  by (simp add: updateStreamStats_def Let_def)

lemma update_head_skip:
  assumes "distinct (map fst ((k0, s0) # t))" "streamId s0 \<noteq> sid"
  shows "snd (updateStreamStats now ((k0, s0) # t) sid f) =
           (k0, s0) # snd (updateStreamStats now t sid f)"
proof (cases "find (\<lambda>(k, stats). streamId stats = sid) t")
  case None
  then show ?thesis using assms(2) by (simp add: updateStreamStats_def)
next
  case (Some a)
  obtain k s where a: "a = (k, s)" by (cases a)
  have "(k, s) \<in> set t" using Some a by (auto dest: find_Some_mem)
  then have "k \<noteq> k0" using assms(1) by (auto simp: image_iff)
  then show ?thesis using Some a assms(2) by (simp add: updateStreamStats_def Let_def)
qed

lemma update_keys: "map fst (snd (updateStreamStats now tbl sid f)) = map fst tbl"
proof (cases "find (\<lambda>(k, stats). streamId stats = sid) tbl")
  case None
  then show ?thesis by (simp add: updateStreamStats_def)
next
  case (Some a)
  obtain k s where a: "a = (k, s)" by (cases a)
  have "(k, s) \<in> set tbl" using Some a by (auto dest: find_Some_mem)
  then have "k \<in> fst ` set tbl" by force
  then show ?thesis using Some a by (simp add: updateStreamStats_def AList.update_keys Let_def)
qed

lemma update_same:
  assumes "distinct (map fst tbl)" "getStreamStats tbl sid = Some cs" "streamId (f cs) = sid"
  shows "getStreamStats (snd (updateStreamStats now tbl sid f)) sid =
           Some ((f cs)\<lparr>updatedAt := Some now\<rparr>)"
  using assms
proof (induction tbl)
  case Nil
  then show ?case by (simp add: getStreamStats_def)
next
  case (Cons a t)
  obtain k0 s0 where a: "a = (k0, s0)" by (cases a)
  show ?case
  proof (cases "streamId s0 = sid")
    case True
    then show ?thesis using Cons.prems a
      by (simp add: update_head_match) (simp add: getStreamStats_def)
  next
    case False
    have "getStreamStats t sid = Some cs" using Cons.prems(2) False a by (simp add: getStreamStats_def)
    moreover have "distinct (map fst t)" using Cons.prems(1) by simp
    ultimately have "getStreamStats (snd (updateStreamStats now t sid f)) sid =
        Some ((f cs)\<lparr>updatedAt := Some now\<rparr>)" using Cons.IH Cons.prems(3) by simp
    then show ?thesis using False Cons.prems(1) unfolding a
      by (simp add: update_head_skip) (simp add: getStreamStats_def)
  qed
qed

lemma update_other:
  assumes "distinct (map fst tbl)" "sid' \<noteq> sid" "\<And>s. streamId (f s) = streamId s"
  shows "getStreamStats (snd (updateStreamStats now tbl sid' f)) sid = getStreamStats tbl sid"
  using assms(1)
proof (induction tbl)
  case Nil
  then show ?case by (simp add: updateStreamStats_def)
next
  case (Cons a t)
  obtain k0 s0 where a: "a = (k0, s0)" by (cases a)
  show ?case
  proof (cases "streamId s0 = sid'")
    case True
    then show ?thesis using assms(2,3) unfolding a
      by (simp add: update_head_match) (simp add: getStreamStats_def)
  next
    case False
    have "getStreamStats (snd (updateStreamStats now t sid' f)) sid = getStreamStats t sid"
      using Cons by simp
    then show ?thesis using False Cons.prems unfolding a
      by (simp add: update_head_skip) (simp add: getStreamStats_def)
  qed
qed

lemma stats_tick_loop_append:
  "stats_tick_loop rnd now (xs @ ys) st = stats_tick_loop rnd now ys (stats_tick_loop rnd now xs st)"
proof (induction xs arbitrary: st)
  case Nil
  then show ?case by simp
next
  case (Cons x xs)
  obtain tbl out where "st = (tbl, out)" by (cases st)
  then show ?case using Cons by (simp add: Let_def split: option.splits)
qed

lemma stats_tick_loop_keys:
  "map fst (fst (stats_tick_loop rnd now ids (tbl, out))) = map fst tbl"
  by (induction ids arbitrary: tbl out) (simp_all add: Let_def update_keys split: option.splits)

lemma stats_tick_loop_other:
  assumes "sid \<notin> set ids" "distinct (map fst tbl)"
  shows "getStreamStats (fst (stats_tick_loop rnd now ids (tbl, out))) sid = getStreamStats tbl sid \<and>
         filter (about sid) (snd (stats_tick_loop rnd now ids (tbl, out))) = filter (about sid) out"
  using assms
proof (induction ids arbitrary: tbl out)
  case Nil
  then show ?case by simp
next
  case (Cons x xs)
  have x: "x \<noteq> sid" and xs: "sid \<notin> set xs" using Cons.prems(1) by auto
  show ?case
  proof (cases "getStreamStats tbl x")
    case None
    then show ?thesis using Cons.IH[OF xs Cons.prems(2)] by simp
  next
    case (Some cur)
    show ?thesis
    proof (cases "connectionStatus cur = Some ''connected''")
      case False
      then show ?thesis using Some Cons.IH[OF xs Cons.prems(2)] by simp
    next
      case True
      let ?f = "\<lambda>s. s\<lparr>viewerCount := Some (max 0 (or_zero (viewerCount cur) + fst (rnd x) - 10)),
                       uptime := Some (or_zero (uptime cur) + 5), ping := Some (15 + snd (rnd x))\<rparr>"
      let ?tbl = "snd (updateStreamStats now tbl x ?f)"
      have d: "distinct (map fst ?tbl)" using Cons.prems(2) by (simp add: update_keys)
      have g: "getStreamStats ?tbl sid = getStreamStats tbl sid"
        using Cons.prems(2) x by (intro update_other) simp_all
      show ?thesis using Some True Cons.IH[OF xs d] g x by (simp add: Let_def)
    qed
  qed
qed


text \<open>What the loop does for one of the ids it is given, and for an id it is not given.\<close>

lemma stats_tick_loop_connected:
  assumes "distinct (map fst tbl)" and "distinct ids" and "sid \<in> set ids"
    and "getStreamStats tbl sid = Some cs"
    and "0 \<le> fst (rnd sid)" and "fst (rnd sid) < 20"
  shows "(connectionStatus cs = Some ''connected'' \<longrightarrow>
           (\<exists>v d p. d = fst (rnd sid) - 10 \<and> - 10 \<le> d \<and> d \<le> 9 \<and>
              v = max 0 (or_zero (viewerCount cs) + d) \<and> 0 \<le> v \<and>
              getStreamStats (fst (stats_tick_loop rnd now ids (tbl, []))) sid =
                Some (cs\<lparr>viewerCount := Some v, uptime := Some (or_zero (uptime cs) + 5),
                        ping := Some p, updatedAt := Some now\<rparr>) \<and>
              filter (about sid) (snd (stats_tick_loop rnd now ids (tbl, []))) =
                [StatsUpdate sid v (or_zero (uptime cs) + 5) p ''connected''])) \<and>
         (connectionStatus cs \<noteq> Some ''connected'' \<longrightarrow>
            getStreamStats (fst (stats_tick_loop rnd now ids (tbl, []))) sid = Some cs \<and>
            filter (about sid) (snd (stats_tick_loop rnd now ids (tbl, []))) = [])"
proof -
  obtain pre post where ids: "ids = pre @ sid # post"
    using assms(3) by (auto dest: split_list)
  have pre: "sid \<notin> set pre" and post: "sid \<notin> set post"
    using assms(2) unfolding ids by auto
  define st1 where "st1 = stats_tick_loop rnd now pre (tbl, [])"
  define tbl1 where "tbl1 = fst st1"
  define out1 where "out1 = snd st1"
  have st1: "st1 = (tbl1, out1)" by (simp add: tbl1_def out1_def)
  have k1: "distinct (map fst tbl1)"
    using assms(1) by (simp add: tbl1_def st1_def stats_tick_loop_keys)
  have g1: "getStreamStats tbl1 sid = Some cs" and o1: "filter (about sid) out1 = []"
    using stats_tick_loop_other[OF pre assms(1), of rnd now "[]"] assms(4)
    by (simp_all add: tbl1_def out1_def st1_def)
  have run: "stats_tick_loop rnd now ids (tbl, []) = stats_tick_loop rnd now post
               (stats_tick_loop rnd now [sid] (tbl1, out1))"
    unfolding ids
    using stats_tick_loop_append[of rnd now pre "sid # post" "(tbl, [])"]
      stats_tick_loop_append[of rnd now "[sid]" post "(tbl1, out1)"]
    by (simp add: st1_def[symmetric] st1)
  show ?thesis
  proof (cases "connectionStatus cs = Some ''connected''")
    case False
    have "stats_tick_loop rnd now [sid] (tbl1, out1) = (tbl1, out1)"
      using g1 False by simp
    then have "stats_tick_loop rnd now ids (tbl, []) = stats_tick_loop rnd now post (tbl1, out1)"
      using run by simp
    then show ?thesis
      using stats_tick_loop_other[OF post k1, of rnd now out1] g1 o1 False by simp
  next
    case True
    define d where "d = fst (rnd sid) - 10"
    define v where "v = max 0 (or_zero (viewerCount cs) + fst (rnd sid) - 10)"
    define u where "u = or_zero (uptime cs) + 5"
    define p where "p = 15 + snd (rnd sid)"
    let ?f = "\<lambda>s. s\<lparr>viewerCount := Some v, uptime := Some u, ping := Some p\<rparr>"
    define tbl2 where "tbl2 = snd (updateStreamStats now tbl1 sid ?f)"
    have step: "stats_tick_loop rnd now [sid] (tbl1, out1) =
                  (tbl2, out1 @ [StatsUpdate sid v u p ''connected''])"
      using g1 True by (simp add: Let_def tbl2_def v_def u_def p_def)
    have sid_cs: "streamId cs = sid"
      using g1 by (auto simp: getStreamStats_def find_Some_iff)
    have g2: "getStreamStats tbl2 sid = Some ((?f cs)\<lparr>updatedAt := Some now\<rparr>)"
      unfolding tbl2_def using k1 g1 sid_cs by (intro update_same) simp_all
    have k2: "distinct (map fst tbl2)" using k1 by (simp add: tbl2_def update_keys)
    have fin: "stats_tick_loop rnd now ids (tbl, []) =
                 stats_tick_loop rnd now post (tbl2, out1 @ [StatsUpdate sid v u p ''connected''])"
      using run step by simp
    have "getStreamStats (fst (stats_tick_loop rnd now ids (tbl, []))) sid =
            Some (cs\<lparr>viewerCount := Some v, uptime := Some u, ping := Some p, updatedAt := Some now\<rparr>)"
      and "filter (about sid) (snd (stats_tick_loop rnd now ids (tbl, []))) = [StatsUpdate sid v u p ''connected'']"
      unfolding fin
      using stats_tick_loop_other[OF post k2, of rnd now "out1 @ [StatsUpdate sid v u p ''connected'']"]
        g2 o1 by simp_all
    moreover have "- 10 \<le> d" "d \<le> 9" using assms(5,6) by (simp_all add: d_def)
    moreover have "0 \<le> v" by (simp add: v_def)
    ultimately show ?thesis using True unfolding u_def
      by (intro conjI impI exI[of _ v] exI[of _ d] exI[of _ p]) (simp_all add: d_def v_def add_diff_eq)
  qed
qed

section \<open>Properties of the encoder service\<close>

lemmas service_defs =
  run_def startStream_def start_spawn_def stopStream_def isStreamActive_def table_set_def
  table_delete_def on_exit_def on_error_def send_signal_def resolve_def emit_exit_def
  emit_error_def force_kill_timer_def grace_elapsed_def setCleanupCallback_def
  callback_return_def run_auto_cleanup_def cleanupStreamFiles_def deleteFile_def
  scenario_init_def scenario_rows_def init_def Let_def

lemma scenario_config_fields:
  "id' scenario_config = 7" "videoPath scenario_config = ''uploads/clip.mp4''"
  by (simp_all add: scenario_config_def)


text \<open>
  Claim C6. \<open>stopStream\<close> on an id without a handle returns false and the state after the
  call is the state before it, in every field.
\<close>

theorem stopStream_inactive:
  assumes "\<not> isStreamActive s streamId'"
  shows "stopStream s streamId' = (StopReturned False, s) \<and> step (Stop streamId') s = s"
  using assms by (simp add: stopStream_def isStreamActive_def)

theorem stopStream_inactive_witness:
  "\<not> isStreamActive scenario_init 7 \<and>
   stopStream scenario_init 7 = (StopReturned False, scenario_init) \<and>
   step (Stop 7) scenario_init = scenario_init"
proof -
  have a: "\<not> isStreamActive scenario_init 7"
    by (simp add: isStreamActive_def scenario_init_def init_def)
  from stopStream_inactive[OF a] a show ?thesis by simp
qed

text \<open>
  Claim C2. Starting stream 7 twice does not leave one handle. In \<open>restart_trace\<close> both
  calls return true and the first encoder has exited, with its cleanup run, before the
  second is registered; but the 5-second timer of the stop, which is never cleared, then
  finds the handle of the second encoder in the table and deletes it: the table is empty
  while the second encoder runs. In \<open>forced_restart_trace\<close> the timer kills the first
  encoder; the second handle is in the table before any cleanup has run for the first,
  and the exit listeners of the first encoder, which delete by id, then remove it. In
  \<open>slow_callback_trace\<close> the auto-cleanup block of the first encoder deletes the video
  before the callback returns: the second call returns false, and no handle is left.
\<close>

theorem restart_loses_handle:
  "startCalls (run restart_trace scenario_init) = [StartReturned True, StartReturned True] \<and>
   map exited (children (run restart_trace scenario_init)) = [True, False] \<and>
   activeStreams (run restart_trace scenario_init) = [] \<and>
   \<not> isStreamActive (run restart_trace scenario_init) 7 \<and>
   cleanupLog (run restart_trace scenario_init) = [AutoCleanup 7, CallbackCleanup 7] \<and>
   isStreamActive (run (take 5 forced_restart_trace) scenario_init) 7 \<and>
   cleanupLog (run (take 5 forced_restart_trace) scenario_init) = [] \<and>
   map exited (children (run forced_restart_trace scenario_init)) = [True, False] \<and>
   activeStreams (run forced_restart_trace scenario_init) = [] \<and>
   isStreamActive (run (take 6 restart_trace) scenario_init) 7 \<and>
   cleanupLog (run (take 5 restart_trace) scenario_init) = [AutoCleanup 7, CallbackCleanup 7] \<and>
   \<not> isStreamActive (run (take 5 restart_trace) scenario_init) 7 \<and>
   startCalls (run slow_callback_trace scenario_init) =
     [StartReturned True, StartReturned False] \<and>
   activeStreams (run slow_callback_trace scenario_init) = []"
  by (simp add: restart_trace_def forced_restart_trace_def slow_callback_trace_def service_defs
      scenario_config_fields)


lemma stops_of_snoc:
  "stops_of (sp @ [q]) p = stops_of sp p @ (if q = p then [length sp] else [])"
proof -
  have "filter (\<lambda>n. (sp @ [q]) ! n = p) [0..<length sp] = filter (\<lambda>n. sp ! n = p) [0..<length sp]"
    by (rule filter_cong) (simp_all add: nth_append)
  then show ?thesis by (simp add: stops_of_def)
qed

lemma stops_of_none:
  assumes "\<forall>n < length sp. sp ! n < m" "m \<le> p"
  shows "stops_of sp p = []"
  using assms by (auto simp: stops_of_def filter_empty_conv)

lemma wf_table_delete: "wf_table tab lt et sp \<Longrightarrow> wf_table (AList.delete k tab) lt et sp"
  by (auto simp: wf_table_def distinct_delete delete_conv split: if_splits)

lemma wf_table_stop:
  assumes "wf_table tab lt et sp" "map_of tab k = Some p"
  shows "wf_table tab (lt[p := lt ! p @ [StopExit k (length sp)]]) et (sp @ [p])"
proof -
  have owner: "\<forall>k p. map_of tab k = Some p \<longrightarrow> p < length lt \<and> (\<exists>ls. lt ! p = StartExit k # ls)"
    using assms(1) unfolding wf_table_def by blast
  then have p: "p < length lt" and "\<exists>ls. lt ! p = StartExit k # ls"
    using assms(2) by blast+
  then obtain ls where own: "lt ! p = StartExit k # ls" by blast
  obtain k' where k': "lt ! p = StartExit k' # map (StopExit k') (stops_of sp p)" "et ! p = [k']"
    using assms(1) p by (auto simp: wf_table_def)
  have kk: "k' = k" using own k'(1) by simp
  have a: "\<exists>j. lt[p := lt ! p @ [StopExit k (length sp)]] ! q =
                StartExit j # map (StopExit j) (stops_of (sp @ [p]) q) \<and> et ! q = [j]"
    if "q < length lt" for q
  proof (cases "q = p")
    case True
    then show ?thesis using p k' kk by (simp add: stops_of_snoc)
  next
    case False
    then show ?thesis using that assms(1) by (auto simp: wf_table_def stops_of_snoc)
  qed
  have b: "q < length lt \<and> (\<exists>ls. lt[p := lt ! p @ [StopExit k (length sp)]] ! q = StartExit j # ls)"
    if "map_of tab j = Some q" for j q
  proof -
    from owner that obtain ls' where q: "q < length lt" "lt ! q = StartExit j # ls'" by blast
    show ?thesis
    proof (cases "q = p")
      case True
      then have "lt[p := lt ! p @ [StopExit k (length sp)]] ! q =
                   StartExit j # (ls' @ [StopExit k (length sp)])"
        using q by simp
      then show ?thesis using q(1) by blast
    next
      case False
      then show ?thesis using q by simp
    qed
  qed
  have c: "(sp @ [p]) ! n < length lt" if "n < Suc (length sp)" for n
    using that assms(1) p by (cases "n = length sp") (auto simp: wf_table_def nth_append)
  have d: "distinct (map fst tab)" "length et = length lt" using assms(1) by (auto simp: wf_table_def)
  show ?thesis unfolding wf_table_def using a b c d by simp
qed

lemma wf_table_spawn:
  assumes "wf_table tab lt et sp"
  shows "wf_table (AList.update k (length lt) tab) (lt @ [[StartExit k]]) (et @ [[k]]) sp"
proof -
  have len: "length et = length lt" using assms by (simp add: wf_table_def)
  have none: "stops_of sp (length lt) = []"
    using assms by (intro stops_of_none[of sp "length lt"]) (auto simp: wf_table_def)
  have a: "\<exists>j. (lt @ [[StartExit k]]) ! q = StartExit j # map (StopExit j) (stops_of sp q) \<and>
               (et @ [[k]]) ! q = [j]"
    if "q < Suc (length lt)" for q
  proof (cases "q = length lt")
    case True
    then show ?thesis using none len by (simp add: nth_append)
  next
    case False
    then have "q < length lt" using that by simp
    then show ?thesis using assms len by (auto simp: wf_table_def nth_append)
  qed
  have b: "q < Suc (length lt) \<and> (\<exists>ls. (lt @ [[StartExit k]]) ! q = StartExit j # ls)"
    if "map_of (AList.update k (length lt) tab) j = Some q" for j q
  proof (cases "j = k")
    case True
    then have "q = length lt" using that by (simp add: update_conv)
    then show ?thesis using True by simp
  next
    case False
    then have "map_of tab j = Some q" using that by (simp add: update_conv)
    then have "q < length lt" "\<exists>ls. lt ! q = StartExit j # ls"
      using assms by (auto simp: wf_table_def)
    then show ?thesis by (simp add: nth_append)
  qed
  have c: "sp ! n < Suc (length lt)" if "n < length sp" for n
    using that assms by (auto simp: wf_table_def less_Suc_eq)
  have d: "distinct (map fst (AList.update k (length lt) tab))"
    using assms by (simp add: wf_table_def distinct_update)
  show ?thesis unfolding wf_table_def using a b c d len by simp
qed


lemma wf_shape: "shape s' = shape s \<Longrightarrow> wf s' = wf s"
  by (simp add: wf_def shape_def)

lemma map_update_same:
  assumes "\<And>c. f (g c) = f c"
  shows "map f (xs[p := g (xs ! p)]) = map f xs"
proof (cases "p < length xs")
  case True
  then show ?thesis using assms by (simp add: map_update list_update_same_conv)
next
  case False
  then have "length xs \<le> p" by simp
  then have "xs[p := g (xs ! p)] = xs" by (rule list_update_beyond)
  then show ?thesis by simp
qed

lemma shape_fields [simp]:
  "shape (s\<lparr>startCalls := a\<rparr>) = shape s"
  "shape (s\<lparr>cleanupLog := b\<rparr>) = shape s"
  "shape (s\<lparr>autoPending := c\<rparr>) = shape s"
  "shape (s\<lparr>callbackPending := d\<rparr>) = shape s"
  "shape (s\<lparr>files := e\<rparr>) = shape s"
  "shape (s\<lparr>streams := f\<rparr>) = shape s"
  "shape (s\<lparr>cleanupCallback := g\<rparr>) = shape s"
  by (simp_all add: shape_def listener_table_def error_table_def stop_processes_def)

lemma shape_stop_flags [simp]:
  "shape (s\<lparr>stopCalls := (stopCalls s)[k := (stopCalls s ! k)\<lparr>resolved := r\<rparr>]\<rparr>) = shape s"
  "shape (s\<lparr>stopCalls := (stopCalls s)[k := (stopCalls s ! k)\<lparr>timerPending := t\<rparr>]\<rparr>) = shape s"
  "shape (s\<lparr>stopCalls := (stopCalls s)[k := (stopCalls s ! k)\<lparr>awaiting := w\<rparr>]\<rparr>) = shape s"
proof -
  have "map stop_process ((stopCalls s)[k := (\<lambda>c. c\<lparr>resolved := r\<rparr>) (stopCalls s ! k)]) =
        map stop_process (stopCalls s)"
       "map stop_process ((stopCalls s)[k := (\<lambda>c. c\<lparr>timerPending := t\<rparr>) (stopCalls s ! k)]) =
        map stop_process (stopCalls s)"
       "map stop_process ((stopCalls s)[k := (\<lambda>c. c\<lparr>awaiting := w\<rparr>) (stopCalls s ! k)]) =
        map stop_process (stopCalls s)"
    by (rule map_update_same, simp)+
  then show
    "shape (s\<lparr>stopCalls := (stopCalls s)[k := (stopCalls s ! k)\<lparr>resolved := r\<rparr>]\<rparr>) = shape s"
    "shape (s\<lparr>stopCalls := (stopCalls s)[k := (stopCalls s ! k)\<lparr>timerPending := t\<rparr>]\<rparr>) = shape s"
    "shape (s\<lparr>stopCalls := (stopCalls s)[k := (stopCalls s ! k)\<lparr>awaiting := w\<rparr>]\<rparr>) = shape s"
    by (simp_all add: shape_def listener_table_def error_table_def stop_processes_def)
qed

lemma shape_send_signal [simp]: "shape (send_signal p sig s) = shape s"
proof -
  have "map exitListeners ((children s)[p := (\<lambda>c. c\<lparr>signals := signals c @ [sig]\<rparr>) (children s ! p)]) =
        map exitListeners (children s)"
       "map errorListeners ((children s)[p := (\<lambda>c. c\<lparr>signals := signals c @ [sig]\<rparr>) (children s ! p)]) =
        map errorListeners (children s)"
    by (rule map_update_same, simp)+
  then show ?thesis
    by (simp add: shape_def listener_table_def error_table_def stop_processes_def send_signal_def)
qed

lemma shape_mark_exited [simp]:
  "shape (s\<lparr>children := (children s)[p := (children s ! p)\<lparr>exited := True\<rparr>]\<rparr>) = shape s"
proof -
  have "map exitListeners ((children s)[p := (\<lambda>c. c\<lparr>exited := True\<rparr>) (children s ! p)]) =
        map exitListeners (children s)"
       "map errorListeners ((children s)[p := (\<lambda>c. c\<lparr>exited := True\<rparr>) (children s ! p)]) =
        map errorListeners (children s)"
    by (rule map_update_same, simp)+
  then show ?thesis
    by (simp add: shape_def listener_table_def error_table_def stop_processes_def)
qed

lemma shape_table_delete:
  "shape (table_delete k s) =
     (AList.delete k (activeStreams s), listener_table s, error_table s, stop_processes s)"
  by (simp add: shape_def table_delete_def listener_table_def error_table_def stop_processes_def)

lemma wf_table_delete_service: "wf s \<Longrightarrow> wf (table_delete k s)"
  using shape_table_delete[of k s] by (simp add: wf_def shape_def wf_table_delete)

lemma shape_stopStream:
  assumes "map_of (activeStreams s) k = Some p" "p < length (children s)"
  shows "shape (snd (stopStream s k)) =
           (activeStreams s,
            (listener_table s)[p := listener_table s ! p @ [StopExit k (length (stop_processes s))]],
            error_table s, stop_processes s @ [p])"
proof -
  have e: "map errorListeners ((children s)[p := (\<lambda>c. c\<lparr>exitListeners := exitListeners c @
             [StopExit k (length (stopCalls s))]\<rparr>) (children s ! p)]) = map errorListeners (children s)"
    by (rule map_update_same) simp
  let ?s1 = "on_exit p (StopExit k (length (stopCalls s))) s"
  have s1: "shape ?s1 = (activeStreams s,
            (listener_table s)[p := listener_table s ! p @ [StopExit k (length (stopCalls s))]],
            error_table s, stop_processes s)"
    using assms(2) e
    by (simp add: shape_def on_exit_def listener_table_def error_table_def stop_processes_def map_update)
  have "shape (send_signal p SIGTERM ?s1) = shape ?s1" by simp
  then show ?thesis using assms(1) s1
    by (simp add: stopStream_def Let_def shape_def listener_table_def error_table_def
        stop_processes_def)
qed

lemma wf_stopStream: "wf s \<Longrightarrow> wf (snd (stopStream s k))"
proof (cases "map_of (activeStreams s) k")
  case None
  assume "wf s"
  then show ?thesis using None by (simp add: stopStream_def)
next
  case (Some p)
  assume w: "wf s"
  then have t: "wf_table (activeStreams s) (listener_table s) (error_table s) (stop_processes s)"
    by (simp add: wf_def)
  then have "\<forall>k p. map_of (activeStreams s) k = Some p \<longrightarrow> p < length (listener_table s)"
    unfolding wf_table_def by blast
  then have p: "p < length (children s)" using Some by (auto simp: listener_table_def)
  show ?thesis
    using wf_table_stop[OF t Some] shape_stopStream[OF Some p] by (simp add: wf_def shape_def)
qed

lemma shape_start_spawn:
  assumes "fst (start_spawn oc config s) = StartInGrace"
  shows "shape (snd (start_spawn oc config s)) =
           (AList.update (id' config) (length (listener_table s)) (activeStreams s),
            listener_table s @ [[StartExit (id' config)]],
            error_table s @ [[id' config]], stop_processes s)"
  using assms
  by (auto simp: start_spawn_def Let_def table_set_def on_exit_def on_error_def shape_def
      listener_table_def error_table_def stop_processes_def
      split: if_splits spawn_outcome.splits)

lemma start_spawn_same:
  assumes "fst (start_spawn oc config s) \<noteq> StartInGrace"
  shows "start_spawn oc config s = (StartReturned False, s)"
  using assms by (auto simp: start_spawn_def Let_def split: if_splits spawn_outcome.splits)

lemma wf_start_spawn: "wf s \<Longrightarrow> wf (snd (start_spawn oc config s))"
proof (cases "fst (start_spawn oc config s) = StartInGrace")
  case True
  assume "wf s"
  then show ?thesis
    using wf_table_spawn[of "activeStreams s" "listener_table s" "error_table s"
        "stop_processes s" "id' config"] shape_start_spawn[OF True]
    by (simp add: wf_def shape_def)
next
  case False
  assume "wf s"
  then show ?thesis using start_spawn_same[OF False] by simp
qed

lemma wf_startStream: "wf s \<Longrightarrow> wf (snd (startStream oc config s))"
  using wf_stopStream[of s "id' config"] wf_start_spawn[of s oc config]
    wf_start_spawn[of "snd (stopStream s (id' config))" oc config]
  by (auto simp: startStream_def split: prod.splits stop_status.splits)

lemma wf_resolve: "wf s \<Longrightarrow> wf (resolve k s)"
proof -
  assume w: "wf s"
  let ?s1 = "s\<lparr>stopCalls := (stopCalls s)[k := (stopCalls s ! k)\<lparr>resolved := True\<rparr>]\<rparr>"
  have w1: "wf ?s1" using w wf_shape[of ?s1 s] by simp
  have "wf (snd (start_spawn oc config ?s1)\<lparr>startCalls := cs\<rparr>)" for oc config cs
    using wf_start_spawn[OF w1, of oc config]
      wf_shape[of "snd (start_spawn oc config ?s1)\<lparr>startCalls := cs\<rparr>" "snd (start_spawn oc config ?s1)"]
    by simp
  then show ?thesis using w w1
    by (auto simp: resolve_def Let_def case_prod_unfold split: option.splits)
qed

lemma wf_fold:
  assumes "wf s" and "\<And>x s. wf s \<Longrightarrow> wf (f x s)"
  shows "wf (fold f xs s)"
  using assms by (induction xs arbitrary: s) simp_all

lemma wf_run_exit_listener: "wf s \<Longrightarrow> wf (run_exit_listener l s)"
proof (cases l)
  case (StartExit k)
  assume "wf s"
  then have "wf (table_delete k s)" by (rule wf_table_delete_service)
  then show ?thesis unfolding StartExit
    using wf_shape[of "table_delete k s\<lparr>cleanupLog := x, autoPending := y\<rparr>" "table_delete k s" for x y]
    by (simp add: Let_def)
next
  case (StopExit k n)
  assume "wf s"
  then have d: "wf (table_delete k s)" by (rule wf_table_delete_service)
  then show ?thesis unfolding StopExit
    using wf_shape[of "table_delete k s\<lparr>cleanupLog := x, callbackPending := y\<rparr>" "table_delete k s" for x y]
    by (simp add: Let_def)
qed

lemma wf_emit_exit: "wf s \<Longrightarrow> wf (emit_exit p s)"
proof -
  assume w: "wf s"
  let ?s1 = "s\<lparr>children := (children s)[p := (children s ! p)\<lparr>exited := True\<rparr>]\<rparr>"
  have "wf ?s1" using w wf_shape[of ?s1 s] by simp
  then have "wf (fold run_exit_listener ls ?s1)" for ls
    by (rule wf_fold) (rule wf_run_exit_listener)
  then have "wf (fold resolve ks (fold run_exit_listener ls ?s1))" for ks ls
    by (rule wf_fold) (rule wf_resolve)
  then show ?thesis using w by (simp add: emit_exit_def Let_def)
qed

lemma wf_emit_error: "wf s \<Longrightarrow> wf (emit_error p s)"
  by (simp add: emit_error_def wf_fold wf_table_delete_service)

lemma wf_force_kill_timer: "wf s \<Longrightarrow> wf (force_kill_timer k s)"
proof -
  assume w: "wf s"
  let ?s1 = "s\<lparr>stopCalls := (stopCalls s)[k := (stopCalls s ! k)\<lparr>timerPending := False\<rparr>]\<rparr>"
  have w1: "wf ?s1" using w wf_shape[of ?s1 s] by simp
  have "wf (send_signal q SIGKILL ?s1)" for q
    using w1 wf_shape[of "send_signal q SIGKILL ?s1" ?s1] by simp
  then have "wf (resolve k (table_delete j (send_signal q SIGKILL ?s1)))" for j q
    by (intro wf_resolve wf_table_delete_service)
  then show ?thesis using w w1 by (simp add: force_kill_timer_def Let_def)
qed

lemma wf_callback_return: "wf s \<Longrightarrow> wf (callback_return k s)"
proof -
  assume w: "wf s"
  have "wf (s\<lparr>callbackPending := x\<rparr>)" for x
    using w wf_shape[of "s\<lparr>callbackPending := x\<rparr>" s] by simp
  then show ?thesis using w by (simp add: callback_return_def wf_resolve)
qed

lemma wf_step: "wf s \<Longrightarrow> wf (step e s)"
proof (cases e)
  case (Start oc config)
  assume "wf s"
  then have w: "wf (snd (startStream oc config s))" by (rule wf_startStream)
  let ?t = "snd (startStream oc config s)"
  have a: "wf (?t\<lparr>startCalls := a\<rparr>)" for a
    using w wf_shape[of "?t\<lparr>startCalls := a\<rparr>" ?t] by simp
  have "wf (?t\<lparr>startCalls := a,
            stopCalls := (stopCalls ?t)[k := (stopCalls ?t ! k)\<lparr>awaiting := x\<rparr>]\<rparr>)" for a k x
  proof -
    let ?u = "?t\<lparr>startCalls := a\<rparr>"
    have "shape (?u\<lparr>stopCalls := (stopCalls ?u)[k := (stopCalls ?u ! k)\<lparr>awaiting := x\<rparr>]\<rparr>) = shape ?u"
      by (rule shape_stop_flags)
    then show ?thesis using a[of a]
      wf_shape[of "?u\<lparr>stopCalls := (stopCalls ?u)[k := (stopCalls ?u ! k)\<lparr>awaiting := x\<rparr>]\<rparr>" ?u]
      by simp
  qed
  then show ?thesis unfolding Start using a
    by (auto simp: Let_def split: prod.splits start_status.splits)
next
  case (Stop k)
  assume "wf s"
  then show ?thesis unfolding Stop by (simp add: wf_stopStream)
next
  case SetCallback
  assume "wf s"
  then show ?thesis unfolding SetCallback
    using wf_shape[of "s\<lparr>cleanupCallback := True\<rparr>" s] by (simp add: setCleanupCallback_def)
next
  case (Exit p)
  assume "wf s"
  then show ?thesis unfolding Exit by (simp add: wf_emit_exit)
next
  case (Error p)
  assume "wf s"
  then show ?thesis unfolding Error by (simp add: wf_emit_error)
next
  case (Timeout k)
  assume "wf s"
  then show ?thesis unfolding Timeout by (simp add: wf_force_kill_timer)
next
  case (Grace n)
  assume "wf s"
  then show ?thesis unfolding Grace
    using wf_shape[of "s\<lparr>startCalls := x\<rparr>" s for x] by (simp add: grace_elapsed_def)
next
  case (CallbackReturn k)
  assume "wf s"
  then show ?thesis unfolding CallbackReturn by (simp add: wf_callback_return)
next
  case (AutoCleanupRun oc)
  assume w: "wf s"
  have "wf (s\<lparr>autoPending := a\<rparr>)" for a
    using w wf_shape[of "s\<lparr>autoPending := a\<rparr>" s] by simp
  moreover have "wf (s\<lparr>autoPending := a, files := b, streams := c\<rparr>)" for a b c
    using w wf_shape[of "s\<lparr>autoPending := a, files := b, streams := c\<rparr>" s] by simp
  ultimately show ?thesis unfolding AutoCleanupRun using w
    by (auto simp: run_auto_cleanup_def Let_def split: list.splits option.splits)
qed

lemma wf_init: "wf (init fs rows)"
  by (simp add: wf_def wf_table_def init_def listener_table_def error_table_def
      stop_processes_def)

lemma wf_run: "wf s \<Longrightarrow> wf (run evs s)"
  unfolding run_def by (rule wf_fold, assumption, rule wf_step)


lemma start_spawn_frame:
  "cleanupLog (snd (start_spawn oc config s)) = cleanupLog s"
  "cleanupCallback (snd (start_spawn oc config s)) = cleanupCallback s"
  "stopCalls (snd (start_spawn oc config s)) = stopCalls s"
  "startCalls (snd (start_spawn oc config s)) = startCalls s"
  "autoPending (snd (start_spawn oc config s)) = autoPending s"
  "callbackPending (snd (start_spawn oc config s)) = callbackPending s"
  "files (snd (start_spawn oc config s)) = files s"
  by (auto simp: start_spawn_def Let_def table_set_def on_exit_def on_error_def
      split: if_splits spawn_outcome.splits)

lemma start_spawn_children:
  "\<exists>cs. children (snd (start_spawn oc config s)) = children s @ cs"
  by (auto simp: start_spawn_def Let_def table_set_def on_exit_def on_error_def
      split: if_splits spawn_outcome.splits)

lemma resolve_frame:
  "cleanupLog (resolve k s) = cleanupLog s"
  "cleanupCallback (resolve k s) = cleanupCallback s"
  "autoPending (resolve k s) = autoPending s"
  "callbackPending (resolve k s) = callbackPending s"
  "files (resolve k s) = files s"
  "length (startCalls (resolve k s)) = length (startCalls s)"
  "length (stopCalls (resolve k s)) = length (stopCalls s)"
  by (auto simp: resolve_def Let_def case_prod_unfold start_spawn_frame split: option.splits)

lemma resolve_children: "\<exists>cs. children (resolve k s) = children s @ cs"
proof -
  let ?s1 = "s\<lparr>stopCalls := (stopCalls s)[k := (stopCalls s ! k)\<lparr>resolved := True\<rparr>]\<rparr>"
  have "\<exists>cs. children (snd (start_spawn oc config ?s1)) = children s @ cs" for oc config
    using start_spawn_children[of oc config ?s1] by simp
  then show ?thesis
    by (auto simp: resolve_def Let_def case_prod_unfold split: option.splits)
qed

lemma fold_resolve_frame:
  "cleanupLog (fold resolve ks s) = cleanupLog s"
  "cleanupCallback (fold resolve ks s) = cleanupCallback s"
  "autoPending (fold resolve ks s) = autoPending s"
  "callbackPending (fold resolve ks s) = callbackPending s"
  "files (fold resolve ks s) = files s"
  "length (startCalls (fold resolve ks s)) = length (startCalls s)"
  "length (stopCalls (fold resolve ks s)) = length (stopCalls s)"
  by (induction ks arbitrary: s) (simp_all add: resolve_frame)

lemma fold_resolve_children: "\<exists>cs. children (fold resolve ks s) = children s @ cs"
proof (induction ks arbitrary: s)
  case Nil
  then show ?case by simp
next
  case (Cons k ks)
  obtain cs where a: "children (resolve k s) = children s @ cs"
    using resolve_children by blast
  obtain cs' where "children (fold resolve ks (resolve k s)) = children (resolve k s) @ cs'"
    using Cons[of "resolve k s"] by blast
  then show ?case using a by simp
qed

lemma run_exit_listener_frame:
  "cleanupLog (run_exit_listener l s) = cleanupLog s @ runs_of (cleanupCallback s) l"
  "autoPending (run_exit_listener l s) = autoPending s @ blocks_of l"
  "callbackPending (run_exit_listener l s) =
     callbackPending s @ resolved_by (\<not> cleanupCallback s) l"
  "cleanupCallback (run_exit_listener l s) = cleanupCallback s"
  "children (run_exit_listener l s) = children s"
  "files (run_exit_listener l s) = files s"
  "stopCalls (run_exit_listener l s) = stopCalls s"
  "startCalls (run_exit_listener l s) = startCalls s"
  by (cases l; simp add: Let_def table_delete_def)+

lemma fold_run_exit_listener_frame:
  "cleanupLog (fold run_exit_listener ls s) =
     cleanupLog s @ concat (map (runs_of (cleanupCallback s)) ls)"
  "autoPending (fold run_exit_listener ls s) = autoPending s @ concat (map blocks_of ls)"
  "callbackPending (fold run_exit_listener ls s) =
     callbackPending s @ concat (map (resolved_by (\<not> cleanupCallback s)) ls)"
  "cleanupCallback (fold run_exit_listener ls s) = cleanupCallback s"
  "children (fold run_exit_listener ls s) = children s"
  "files (fold run_exit_listener ls s) = files s"
  "stopCalls (fold run_exit_listener ls s) = stopCalls s"
  "startCalls (fold run_exit_listener ls s) = startCalls s"
  by (induction ls arbitrary: s) (simp_all add: run_exit_listener_frame)

lemma emit_exit_frame:
  assumes "p < length (children s)" "\<not> exited (children s ! p)"
  shows "cleanupLog (emit_exit p s) =
           cleanupLog s @ concat (map (runs_of (cleanupCallback s)) (exitListeners (children s ! p)))"
    and "autoPending (emit_exit p s) =
           autoPending s @ concat (map blocks_of (exitListeners (children s ! p)))"
    and "callbackPending (emit_exit p s) =
           callbackPending s @
           concat (map (resolved_by (\<not> cleanupCallback s)) (exitListeners (children s ! p)))"
  using assms by (simp_all add: emit_exit_def Let_def fold_resolve_frame fold_run_exit_listener_frame)

lemma emit_exit_once: "emit_exit p (emit_exit p s) = emit_exit p s"
proof (cases "p < length (children s) \<and> \<not> exited (children s ! p)")
  case False
  then have "emit_exit p s = s" unfolding emit_exit_def by (simp only: if_False)
  then show ?thesis by simp
next
  case True
  let ?s1 = "s\<lparr>children := (children s)[p := (children s ! p)\<lparr>exited := True\<rparr>]\<rparr>"
  let ?ls = "exitListeners (children s ! p)"
  let ?s2 = "fold run_exit_listener ?ls ?s1"
  have e: "emit_exit p s = fold resolve (concat (map (resolved_by (cleanupCallback s)) ?ls)) ?s2"
    using True by (simp add: emit_exit_def Let_def)
  obtain cs where cs: "children (emit_exit p s) = children ?s2 @ cs"
    unfolding e using fold_resolve_children by blast
  have "children ?s2 = (children s)[p := (children s ! p)\<lparr>exited := True\<rparr>]"
    by (simp add: fold_run_exit_listener_frame)
  then have "exited (children (emit_exit p s) ! p)"
    using cs True by (simp add: nth_append)
  then show ?thesis by (simp add: emit_exit_def[of p "emit_exit p s"])
qed

lemma force_kill_timer_frame:
  "cleanupLog (force_kill_timer n s) = cleanupLog s"
  "autoPending (force_kill_timer n s) = autoPending s"
  "callbackPending (force_kill_timer n s) = callbackPending s"
  by (simp_all add: force_kill_timer_def Let_def resolve_frame table_delete_def send_signal_def)

lemma force_kill_timer_noop:
  assumes "n < length (stopCalls s)" "\<not> isStreamActive s (stop_streamId (stopCalls s ! n))"
  shows "activeStreams (force_kill_timer n s) = activeStreams s"
    and "children (force_kill_timer n s) = children s"
    and "startCalls (force_kill_timer n s) = startCalls s"
  using assms by (simp_all add: force_kill_timer_def Let_def isStreamActive_def)

lemma callback_return_log: "cleanupLog (callback_return n s) = cleanupLog s"
  by (simp add: callback_return_def resolve_frame)

lemma listener_sums:
  "concat (map (runs_of cb) (StartExit k # map (StopExit k) ks)) =
     AutoCleanup k # (if cb then map (\<lambda>_. CallbackCleanup k) ks else [])"
  "concat (map blocks_of (StartExit k # map (StopExit k) ks)) = [k]"
  "concat (map (resolved_by (\<not> cb)) (StartExit k # map (StopExit k) ks)) = (if cb then ks else [])"
  by (induction ks) simp_all

lemma wf_listeners:
  assumes "wf s" "p < length (children s)"
  shows "\<exists>k. exitListeners (children s ! p) = StartExit k # map (StopExit k) (stops_on s p) \<and>
             errorListeners (children s ! p) = [k]"
proof -
  have "\<forall>p < length (listener_table s). \<exists>k.
          listener_table s ! p = StartExit k # map (StopExit k) (stops_of (stop_processes s) p) \<and>
          error_table s ! p = [k]"
    using assms(1) unfolding wf_def wf_table_def by blast
  then show ?thesis using assms(2)
    by (simp add: listener_table_def error_table_def stops_on_def stop_processes_def)
qed

lemma wf_handle:
  assumes "wf s" "map_of (activeStreams s) k = Some p"
  shows "p < length (children s)" and "\<exists>ls. exitListeners (children s ! p) = StartExit k # ls"
proof -
  have "\<forall>k p. map_of (activeStreams s) k = Some p \<longrightarrow>
          p < length (listener_table s) \<and> (\<exists>ls. listener_table s ! p = StartExit k # ls)"
    using assms(1) unfolding wf_def wf_table_def by blast
  then have "p < length (listener_table s) \<and> (\<exists>ls. listener_table s ! p = StartExit k # ls)"
    using assms(2) by blast
  then show "p < length (children s)" and "\<exists>ls. exitListeners (children s ! p) = StartExit k # ls"
    by (auto simp: listener_table_def)
qed

lemma stops_on_stopStream:
  assumes "wf s" "map_of (activeStreams s) k = Some p"
  shows "stops_on (snd (stopStream s k)) q =
           stops_on s q @ (if p = q then [length (stopCalls s)] else [])"
proof -
  have "shape (snd (stopStream s k)) =
           (activeStreams s,
            (listener_table s)[p := listener_table s ! p @ [StopExit k (length (stop_processes s))]],
            error_table s, stop_processes s @ [p])"
    using assms(2) wf_handle(1)[OF assms] by (rule shape_stopStream)
  then have "stop_processes (snd (stopStream s k)) = stop_processes s @ [p]"
    by (simp add: shape_def)
  then show ?thesis
    by (simp add: stops_on_def stop_processes_def[symmetric] stops_of_snoc)
       (simp add: stop_processes_def)
qed

lemma run_auto_cleanup_row:
  assumes "autoPending s = j # rest" "streams s j = Some row"
  shows "stream_videoPath row = Some vp \<and> vp \<noteq> [] \<longrightarrow>
           autoPending (run_auto_cleanup oc s) = rest \<and>
           files (run_auto_cleanup oc s) = snd (deleteFile oc (files s) vp) \<and>
           streams (run_auto_cleanup oc s) j =
             Some (row\<lparr>stream_videoPath := None, stream_isActive := Some False\<rparr>) \<and>
           cleanupLog (run_auto_cleanup oc s) = cleanupLog s \<and>
           activeStreams (run_auto_cleanup oc s) = activeStreams s"
    and "stream_videoPath row = None \<longrightarrow> run_auto_cleanup oc s = s\<lparr>autoPending := rest\<rparr>"
  using assms by (simp_all add: run_auto_cleanup_def Let_def cleanupStreamFiles_def)


text \<open>
  Claim C1, as the code has it. In every state the service can reach: the \<open>exit\<close> event
  of a live process starts the auto-cleanup block of the exit handler of \<open>startStream\<close>
  exactly once and, if a callback is registered, invokes the cleanup callback once for
  every call of \<open>stopStream\<close> that found the process, each of those handlers then waiting
  for its callback to return; a second \<open>exit\<close> event, or an \<open>exit\<close> event of a process that
  has exited, changes nothing. Every call of
  \<open>stopStream\<close> that finds a process is one more such call. The auto-cleanup block, when it
  is carried out, deletes the video of the row and clears the row, and does nothing to a
  row that has no video path. The 5-second timer of a stop call and the return of a
  callback never run cleanup, and when the table has no handle for the id the timer
  changes neither the table, nor a process, nor a call of \<open>startStream\<close>.
\<close>

theorem exit_cleanup_runs:
  assumes "s = run evs (init fs rows)"
  shows
    "(p < length (children s) \<and> \<not> exited (children s ! p) \<longrightarrow>
        (\<exists>k. exitListeners (children s ! p) = StartExit k # map (StopExit k) (stops_on s p) \<and>
             cleanupLog (step (Exit p) s) =
               cleanupLog s @ AutoCleanup k #
                 (if cleanupCallback s then map (\<lambda>_. CallbackCleanup k) (stops_on s p) else []) \<and>
             autoPending (step (Exit p) s) = autoPending s @ [k] \<and>
             callbackPending (step (Exit p) s) =
               callbackPending s @ (if cleanupCallback s then stops_on s p else []))) \<and>
     step (Exit p) (step (Exit p) s) = step (Exit p) s \<and>
     (exited (children s ! p) \<longrightarrow> step (Exit p) s = s) \<and>
     (map_of (activeStreams s) i = Some q \<longrightarrow>
        stops_on (step (Stop i) s) q = stops_on s q @ [length (stopCalls s)]) \<and>
     (autoPending s = j # rest \<and> streams s j = Some row \<and>
      stream_videoPath row = Some vp \<and> vp \<noteq> [] \<longrightarrow>
        autoPending (step (AutoCleanupRun oc) s) = rest \<and>
        files (step (AutoCleanupRun oc) s) = snd (deleteFile oc (files s) vp) \<and>
        streams (step (AutoCleanupRun oc) s) j =
          Some (row\<lparr>stream_videoPath := None, stream_isActive := Some False\<rparr>) \<and>
        cleanupLog (step (AutoCleanupRun oc) s) = cleanupLog s) \<and>
     (autoPending s = j # rest \<and> streams s j = Some row \<and> stream_videoPath row = None \<longrightarrow>
        step (AutoCleanupRun oc) s = s\<lparr>autoPending := rest\<rparr>) \<and>
     cleanupLog (step (Timeout n) s) = cleanupLog s \<and>
     autoPending (step (Timeout n) s) = autoPending s \<and>
     callbackPending (step (Timeout n) s) = callbackPending s \<and>
     cleanupLog (step (CallbackReturn n) s) = cleanupLog s \<and>
     (n < length (stopCalls s) \<and> \<not> isStreamActive s (stop_streamId (stopCalls s ! n)) \<longrightarrow>
        activeStreams (step (Timeout n) s) = activeStreams s \<and>
        children (step (Timeout n) s) = children s \<and>
        startCalls (step (Timeout n) s) = startCalls s)"
proof -
  have w: "wf s" unfolding assms by (intro wf_run wf_init)
  have exit: "p < length (children s) \<and> \<not> exited (children s ! p) \<longrightarrow>
        (\<exists>k. exitListeners (children s ! p) = StartExit k # map (StopExit k) (stops_on s p) \<and>
             cleanupLog (step (Exit p) s) =
               cleanupLog s @ AutoCleanup k #
                 (if cleanupCallback s then map (\<lambda>_. CallbackCleanup k) (stops_on s p) else []) \<and>
             autoPending (step (Exit p) s) = autoPending s @ [k] \<and>
             callbackPending (step (Exit p) s) =
               callbackPending s @ (if cleanupCallback s then stops_on s p else []))"
  proof
    assume a: "p < length (children s) \<and> \<not> exited (children s ! p)"
    then obtain k where
      ls: "exitListeners (children s ! p) = StartExit k # map (StopExit k) (stops_on s p)"
      using wf_listeners[OF w, of p] by blast
    have p: "p < length (children s)" "\<not> exited (children s ! p)" using a by simp_all
    show "\<exists>k. exitListeners (children s ! p) = StartExit k # map (StopExit k) (stops_on s p) \<and>
             cleanupLog (step (Exit p) s) =
               cleanupLog s @ AutoCleanup k #
                 (if cleanupCallback s then map (\<lambda>_. CallbackCleanup k) (stops_on s p) else []) \<and>
             autoPending (step (Exit p) s) = autoPending s @ [k] \<and>
             callbackPending (step (Exit p) s) =
               callbackPending s @ (if cleanupCallback s then stops_on s p else [])"
    proof (intro exI[of _ k] conjI)
      show "exitListeners (children s ! p) = StartExit k # map (StopExit k) (stops_on s p)"
        by (rule ls)
      show "cleanupLog (step (Exit p) s) =
               cleanupLog s @ AutoCleanup k #
                 (if cleanupCallback s then map (\<lambda>_. CallbackCleanup k) (stops_on s p) else [])"
        using emit_exit_frame(1)[OF p] unfolding ls listener_sums by simp
      show "autoPending (step (Exit p) s) = autoPending s @ [k]"
        using emit_exit_frame(2)[OF p] unfolding ls listener_sums by simp
      show "callbackPending (step (Exit p) s) =
               callbackPending s @ (if cleanupCallback s then stops_on s p else [])"
        using emit_exit_frame(3)[OF p] unfolding ls listener_sums by simp
    qed
  qed
  have once: "step (Exit p) (step (Exit p) s) = step (Exit p) s"
    by (simp add: emit_exit_once)
  have gone: "exited (children s ! p) \<longrightarrow> step (Exit p) s = s"
    by (simp add: emit_exit_def)
  have stop: "map_of (activeStreams s) i = Some q \<longrightarrow>
        stops_on (step (Stop i) s) q = stops_on s q @ [length (stopCalls s)]"
    using stops_on_stopStream[OF w, of i q q] by simp
  have auto1: "autoPending s = j # rest \<and> streams s j = Some row \<and>
      stream_videoPath row = Some vp \<and> vp \<noteq> [] \<longrightarrow>
        autoPending (step (AutoCleanupRun oc) s) = rest \<and>
        files (step (AutoCleanupRun oc) s) = snd (deleteFile oc (files s) vp) \<and>
        streams (step (AutoCleanupRun oc) s) j =
          Some (row\<lparr>stream_videoPath := None, stream_isActive := Some False\<rparr>) \<and>
        cleanupLog (step (AutoCleanupRun oc) s) = cleanupLog s"
    using run_auto_cleanup_row(1)[of s j rest row vp oc] by simp
  have auto2: "autoPending s = j # rest \<and> streams s j = Some row \<and> stream_videoPath row = None \<longrightarrow>
        step (AutoCleanupRun oc) s = s\<lparr>autoPending := rest\<rparr>"
    using run_auto_cleanup_row(2)[of s j rest row oc] by simp
  have timer: "cleanupLog (step (Timeout n) s) = cleanupLog s"
    "autoPending (step (Timeout n) s) = autoPending s"
    "callbackPending (step (Timeout n) s) = callbackPending s"
    "cleanupLog (step (CallbackReturn n) s) = cleanupLog s"
    by (simp_all add: force_kill_timer_frame callback_return_log)
  have noop: "n < length (stopCalls s) \<and> \<not> isStreamActive s (stop_streamId (stopCalls s ! n)) \<longrightarrow>
        activeStreams (step (Timeout n) s) = activeStreams s \<and>
        children (step (Timeout n) s) = children s \<and>
        startCalls (step (Timeout n) s) = startCalls s"
    using force_kill_timer_noop[of n s] by simp
  show ?thesis
    using exit once gone stop auto1 auto2 timer noop by (intro conjI)
qed


lemma stopped_twice_eval:
  "length (children stopped_twice) = 1"
  "exited (children stopped_twice ! 0) = False"
  "exitListeners (children stopped_twice ! 0) = [StartExit 7, StopExit 7 0, StopExit 7 1]"
  "cleanupCallback stopped_twice"
  "cleanupLog stopped_twice = []"
  "autoPending stopped_twice = []"
  "callbackPending stopped_twice = []"
  "activeStreams stopped_twice = []"
  "length (stopCalls stopped_twice) = 2"
  "stop_streamId (stopCalls stopped_twice ! 0) = 7"
  "map stop_process (stopCalls stopped_twice) = [0, 0]"
  by (simp_all add: stopped_twice_def stop_race_trace_def service_defs scenario_config_fields)

lemma exited_eval:
  "autoPending exited_once = [7]"
  "streams exited_once 7 =
     Some \<lparr>stream_videoPath = Some ''uploads/clip.mp4'', stream_isActive = Some False\<rparr>"
  "files exited_once = {''uploads/clip.mp4''}"
  "autoPending exited_again = [7]"
  "streams exited_again 7 = Some \<lparr>stream_videoPath = None, stream_isActive = Some False\<rparr>"
  "files exited_again = {}"
  "exited (children exited_once ! 0)"
  by (simp_all add: exited_once_def exited_again_def service_defs scenario_config_fields)

theorem exit_cleanup_runs_witness:
  "0 < length (children stopped_twice) \<and> \<not> exited (children stopped_twice ! 0) \<and>
   stops_on stopped_twice 0 = [0, 1] \<and> cleanupCallback stopped_twice \<and>
   cleanupLog (step (Exit 0) stopped_twice) =
     [AutoCleanup 7, CallbackCleanup 7, CallbackCleanup 7] \<and>
   autoPending (step (Exit 0) stopped_twice) = [7] \<and>
   callbackPending (step (Exit 0) stopped_twice) = [0, 1] \<and>
   0 < length (stopCalls stopped_twice) \<and>
   \<not> isStreamActive stopped_twice (stop_streamId (stopCalls stopped_twice ! 0)) \<and>
   activeStreams (step (Timeout 0) stopped_twice) = [] \<and>
   map_of (activeStreams (run (take 3 stop_race_trace) scenario_init)) 7 = Some 0 \<and>
   stops_on (step (Stop 7) (run (take 3 stop_race_trace) scenario_init)) 0 = [0] \<and>
   exited (children exited_once ! 0) \<and> step (Exit 0) exited_once = exited_once \<and>
   autoPending exited_once = [7] \<and>
   streams exited_once 7 =
     Some \<lparr>stream_videoPath = Some ''uploads/clip.mp4'', stream_isActive = Some False\<rparr> \<and>
   files (step (AutoCleanupRun UnlinkOk) exited_once) = {} \<and>
   streams (step (AutoCleanupRun UnlinkOk) exited_once) 7 =
     Some \<lparr>stream_videoPath = None, stream_isActive = Some False\<rparr> \<and>
   autoPending exited_again = [7] \<and>
   streams exited_again 7 = Some \<lparr>stream_videoPath = None, stream_isActive = Some False\<rparr> \<and>
   step (AutoCleanupRun UnlinkOk) exited_again = exited_again\<lparr>autoPending := []\<rparr>"
proof -
  have r1: "stopped_twice = run (stop_race_trace @ [Error 0]) (init {''uploads/clip.mp4''} scenario_rows)"
    by (simp add: stopped_twice_def scenario_init_def)
  have r2: "run (take 3 stop_race_trace) scenario_init =
            run (take 3 stop_race_trace) (init {''uploads/clip.mp4''} scenario_rows)"
    by (simp add: scenario_init_def)
  have r3: "exited_once =
            run [Start SpawnOk scenario_config, Grace 0, Exit 0] (init {''uploads/clip.mp4''} scenario_rows)"
    by (simp add: exited_once_def scenario_init_def)
  have r4: "exited_again =
     run [Start SpawnOk scenario_config, Grace 0, Exit 0, Start SpawnOk scenario_config,
          Grace 1, Exit 1, AutoCleanupRun UnlinkOk] (init {''uploads/clip.mp4''} scenario_rows)"
    by (simp add: exited_again_def scenario_init_def)
  have so: "stops_on stopped_twice 0 = [0, 1]"
    by (simp add: stops_on_def stops_of_def stopped_twice_eval)
  have na: "\<not> isStreamActive stopped_twice 7"
    by (simp add: isStreamActive_def stopped_twice_eval)
  have h2: "map_of (activeStreams (run (take 3 stop_race_trace) scenario_init)) 7 = Some 0"
           "stops_on (run (take 3 stop_race_trace) scenario_init) 0 = []"
           "length (stopCalls (run (take 3 stop_race_trace) scenario_init)) = 0"
    by (simp_all add: stop_race_trace_def service_defs scenario_config_fields stops_on_def stops_of_def)
  have d: "snd (deleteFile UnlinkOk {''uploads/clip.mp4''} ''uploads/clip.mp4'') = {}"
    by (simp add: deleteFile_def)
  note t1 = exit_cleanup_runs[OF r1, of 0 7 0 7 "[]" _ _ UnlinkOk 0]
  note t2 = exit_cleanup_runs[OF r2, of 0 7 0 7 "[]" _ _ UnlinkOk 0]
  note t3 = exit_cleanup_runs[OF r3, of 0 7 0 7 "[]"
      "\<lparr>stream_videoPath = Some ''uploads/clip.mp4'', stream_isActive = Some False\<rparr>"
      "''uploads/clip.mp4''" UnlinkOk 0]
  note t4 = exit_cleanup_runs[OF r4, of 0 7 0 7 "[]"
      "\<lparr>stream_videoPath = None, stream_isActive = Some False\<rparr>" _ UnlinkOk 0]
  have pre: "0 < length (children stopped_twice) \<and> \<not> exited (children stopped_twice ! 0)"
    by (simp add: stopped_twice_eval)
  from t1[THEN conjunct1, THEN mp, OF pre] obtain k where
    k: "exitListeners (children stopped_twice ! 0) = StartExit k # map (StopExit k) (stops_on stopped_twice 0)"
       "cleanupLog (step (Exit 0) stopped_twice) =
          cleanupLog stopped_twice @ AutoCleanup k #
            (if cleanupCallback stopped_twice
             then map (\<lambda>_. CallbackCleanup k) (stops_on stopped_twice 0) else [])"
       "autoPending (step (Exit 0) stopped_twice) = autoPending stopped_twice @ [k]"
       "callbackPending (step (Exit 0) stopped_twice) =
          callbackPending stopped_twice @
          (if cleanupCallback stopped_twice then stops_on stopped_twice 0 else [])"
    by blast
  have k7: "k = 7" using k(1) stopped_twice_eval(3) by simp
  have a: "cleanupLog (step (Exit 0) stopped_twice) =
             [AutoCleanup 7, CallbackCleanup 7, CallbackCleanup 7]"
          "autoPending (step (Exit 0) stopped_twice) = [7]"
          "callbackPending (step (Exit 0) stopped_twice) = [0, 1]"
    using k(2,3,4) k7 so stopped_twice_eval(4,5,6,7) by (simp_all del: step.simps)
  have b: "activeStreams (step (Timeout 0) stopped_twice) = []"
    using t1 na stopped_twice_eval(8,9,10) by (simp del: step.simps)
  have c: "stops_on (step (Stop 7) (run (take 3 stop_race_trace) scenario_init)) 0 = [0]"
    using t2 h2 by (simp del: step.simps)
  have e: "files (step (AutoCleanupRun UnlinkOk) exited_once) = {}"
          "streams (step (AutoCleanupRun UnlinkOk) exited_once) 7 =
             Some \<lparr>stream_videoPath = None, stream_isActive = Some False\<rparr>"
    using t3 exited_eval(1,2,3) d by (simp_all del: step.simps)
  have f: "step (AutoCleanupRun UnlinkOk) exited_again = exited_again\<lparr>autoPending := []\<rparr>"
    using t4 exited_eval(4,5) by (simp del: step.simps)
  have g: "step (Exit 0) exited_once = exited_once"
    using t3 exited_eval(7) by (simp del: step.simps)
  show ?thesis
    using a b c e f g so na h2(1) stopped_twice_eval exited_eval by (simp del: step.simps)
qed

text \<open>
  Claim C1 as stated fails: with a callback registered, a \<open>stopStream\<close> followed by the
  exit of the encoder makes two cleanup runs for one termination, one by each exit
  handler; two pending calls of \<open>stopStream\<close> make three; an exit with no stop pending
  never invokes the callback; and when the timer fires first it runs no cleanup at all,
  the two runs come with the later \<open>exit\<close> event.
\<close>

theorem cleanup_runs_counterexample:
  "cleanupLog (run [SetCallback, Start SpawnOk scenario_config, Grace 0, Stop 7, Exit 0]
      scenario_init) = [AutoCleanup 7, CallbackCleanup 7] \<and>
   cleanupLog (run (stop_race_trace @ [Exit 0]) scenario_init) =
     [AutoCleanup 7, CallbackCleanup 7, CallbackCleanup 7] \<and>
   cleanupLog (run [SetCallback, Start SpawnOk scenario_config, Grace 0, Exit 0]
      scenario_init) = [AutoCleanup 7] \<and>
   cleanupLog (run [SetCallback, Start SpawnOk scenario_config, Grace 0, Stop 7, Timeout 0]
      scenario_init) = [] \<and>
   map resolved (stopCalls (run [SetCallback, Start SpawnOk scenario_config, Grace 0, Stop 7,
      Timeout 0] scenario_init)) = [True] \<and>
   cleanupLog (run [SetCallback, Start SpawnOk scenario_config, Grace 0, Stop 7, Timeout 0,
      Exit 0] scenario_init) = [AutoCleanup 7, CallbackCleanup 7]"
  by (simp add: stop_race_trace_def service_defs scenario_config_fields)


lemma awaited_ok_frame:
  assumes "awaited_ok s" "map awaiting (stopCalls t) = map awaiting (stopCalls s)"
    "length (startCalls s) \<le> length (startCalls t)"
  shows "awaited_ok t"
proof -
  have l: "length (stopCalls t) = length (stopCalls s)"
    using assms(2) by (rule map_eq_imp_length_eq)
  have "awaiting (stopCalls t ! j) = awaiting (stopCalls s ! j)" if "j < length (stopCalls s)" for j
    using assms(2) that l by (metis nth_map)
  then show ?thesis using assms(1,3) l unfolding awaited_ok_def by fastforce
qed

lemma resolve_awaiting_frame:
  "map awaiting (stopCalls (resolve k s)) = map awaiting (stopCalls s)"
  by (auto simp: resolve_def Let_def case_prod_unfold start_spawn_frame map_update
      list_update_same_conv split: option.splits)



lemma awaited_ok_resolve: "awaited_ok s \<Longrightarrow> awaited_ok (resolve k s)"
  by (erule awaited_ok_frame) (simp_all add: resolve_awaiting_frame resolve_frame)












































section \<open>The stats timer over the service\<close>

lemma active_ids: "isStreamActive s sid \<longleftrightarrow> sid \<in> set (getActiveStreamIds s)"
  by (simp add: isStreamActive_def getActiveStreamIds_def map_of_eq_None_iff)

lemma wf_active_ids: "wf s \<Longrightarrow> distinct (getActiveStreamIds s)"
  by (simp add: wf_def wf_table_def getActiveStreamIds_def)

text \<open>
  Claim C5. The timer callback asks the service for the ids of the active streams, in a
  state the service can reach, and goes through them once. A stream that is active and
  whose stats row is connected has its uptime advanced by 5 (a null uptime counts as 0),
  its viewer count set to the old count plus a delta between -10 and 9, floored at 0, the
  row stored, and exactly one \<open>statsUpdate\<close> message published for it. A stream whose row
  is not connected, or that is not active, keeps its row and gets no message.
\<close>

theorem stats_tick_connected:
  assumes "s = run evs (init fs rows)" and "distinct (map fst tbl)"
    and "getStreamStats tbl sid = Some cs"
    and "0 \<le> fst (rnd sid)" and "fst (rnd sid) < 20"
  shows "(isStreamActive s sid \<and> connectionStatus cs = Some ''connected'' \<longrightarrow>
           (\<exists>v d p. d = fst (rnd sid) - 10 \<and> - 10 \<le> d \<and> d \<le> 9 \<and>
              v = max 0 (or_zero (viewerCount cs) + d) \<and> 0 \<le> v \<and>
              getStreamStats (fst (stats_tick rnd now s tbl)) sid =
                Some (cs\<lparr>viewerCount := Some v, uptime := Some (or_zero (uptime cs) + 5),
                        ping := Some p, updatedAt := Some now\<rparr>) \<and>
              filter (about sid) (snd (stats_tick rnd now s tbl)) =
                [StatsUpdate sid v (or_zero (uptime cs) + 5) p ''connected''])) \<and>
         (\<not> (isStreamActive s sid \<and> connectionStatus cs = Some ''connected'') \<longrightarrow>
            getStreamStats (fst (stats_tick rnd now s tbl)) sid = Some cs \<and>
            filter (about sid) (snd (stats_tick rnd now s tbl)) = [])"
proof (cases "isStreamActive s sid")
  case True
  have w: "wf s" unfolding assms(1) by (intro wf_run wf_init)
  have m: "sid \<in> set (getActiveStreamIds s)" using True by (simp add: active_ids)
  have d: "distinct (getActiveStreamIds s)" using w by (rule wf_active_ids)
  have "(connectionStatus cs = Some ''connected'' \<longrightarrow>
           (\<exists>v d p. d = fst (rnd sid) - 10 \<and> - 10 \<le> d \<and> d \<le> 9 \<and>
              v = max 0 (or_zero (viewerCount cs) + d) \<and> 0 \<le> v \<and>
              getStreamStats (fst (stats_tick_loop rnd now (getActiveStreamIds s) (tbl, []))) sid =
                Some (cs\<lparr>viewerCount := Some v, uptime := Some (or_zero (uptime cs) + 5),
                        ping := Some p, updatedAt := Some now\<rparr>) \<and>
              filter (about sid) (snd (stats_tick_loop rnd now (getActiveStreamIds s) (tbl, []))) =
                [StatsUpdate sid v (or_zero (uptime cs) + 5) p ''connected''])) \<and>
         (connectionStatus cs \<noteq> Some ''connected'' \<longrightarrow>
            getStreamStats (fst (stats_tick_loop rnd now (getActiveStreamIds s) (tbl, []))) sid = Some cs \<and>
            filter (about sid) (snd (stats_tick_loop rnd now (getActiveStreamIds s) (tbl, []))) = [])"
    using assms(2) d m assms(3) assms(4) assms(5) by (rule stats_tick_loop_connected)
  then show ?thesis using True by (simp add: stats_tick_def)
next
  case False
  then have "sid \<notin> set (getActiveStreamIds s)" by (simp add: active_ids)
  then have "getStreamStats (fst (stats_tick_loop rnd now (getActiveStreamIds s) (tbl, []))) sid =
                 getStreamStats tbl sid \<and>
             filter (about sid) (snd (stats_tick_loop rnd now (getActiveStreamIds s) (tbl, []))) =
                 filter (about sid) []"
    using assms(2) by (rule stats_tick_loop_other)
  then show ?thesis using False assms(3) by (simp add: stats_tick_def)
qed

lemma two_streams_eval:
  "getActiveStreamIds (run two_streams_trace scenario_init) = [7, 8]"
  by (simp add: two_streams_trace_def getActiveStreamIds_def service_defs scenario_config_fields)

theorem stats_tick_connected_witness:
  "distinct (map fst scenario_stats) \<and>
   isStreamActive (run two_streams_trace scenario_init) 7 \<and>
   isStreamActive (run two_streams_trace scenario_init) 8 \<and>
   \<not> isStreamActive (run two_streams_trace scenario_init) 9 \<and>
   getStreamStats scenario_stats 7 =
     Some \<lparr>stats_id = 1, streamId = 7, viewerCount = Some 3, uptime = Some 100, ping = Some 20,
           connectionStatus = Some ''connected'', updatedAt = Some 0\<rparr> \<and>
   getStreamStats (fst (stats_tick (\<lambda>_. (4, 6)) 5000 (run two_streams_trace scenario_init)
                          scenario_stats)) 7 =
     Some \<lparr>stats_id = 1, streamId = 7, viewerCount = Some 0, uptime = Some 105, ping = Some 21,
           connectionStatus = Some ''connected'', updatedAt = Some 5000\<rparr> \<and>
   filter (about 7) (snd (stats_tick (\<lambda>_. (4, 6)) 5000 (run two_streams_trace scenario_init)
                            scenario_stats)) =
     [StatsUpdate 7 0 105 21 ''connected''] \<and>
   getStreamStats (fst (stats_tick (\<lambda>_. (4, 6)) 5000 (run two_streams_trace scenario_init)
                          scenario_stats)) 8 =
     getStreamStats scenario_stats 8 \<and>
   filter (about 8) (snd (stats_tick (\<lambda>_. (4, 6)) 5000 (run two_streams_trace scenario_init)
                            scenario_stats)) = [] \<and>
   connectionStatus (the (getStreamStats scenario_stats 9)) = Some ''connected'' \<and>
   getStreamStats (fst (stats_tick (\<lambda>_. (4, 6)) 5000 (run two_streams_trace scenario_init)
                          scenario_stats)) 9 =
     getStreamStats scenario_stats 9 \<and>
   filter (about 9) (snd (stats_tick (\<lambda>_. (4, 6)) 5000 (run two_streams_trace scenario_init)
                            scenario_stats)) = []"
proof -
  have r: "run two_streams_trace scenario_init =
             run two_streams_trace (init {''uploads/clip.mp4''} scenario_rows)"
    by (simp add: scenario_init_def)
  have k: "distinct (map fst scenario_stats)" by (simp add: scenario_stats_def)
  have a: "isStreamActive (run two_streams_trace scenario_init) 7"
    "isStreamActive (run two_streams_trace scenario_init) 8"
    "\<not> isStreamActive (run two_streams_trace scenario_init) 9"
    by (simp_all add: active_ids two_streams_eval)
  have g7: "getStreamStats scenario_stats 7 =
     Some \<lparr>stats_id = 1, streamId = 7, viewerCount = Some 3, uptime = Some 100, ping = Some 20,
           connectionStatus = Some ''connected'', updatedAt = Some 0\<rparr>"
    by (simp add: getStreamStats_def scenario_stats_def)
  have g8: "getStreamStats scenario_stats 8 =
     Some \<lparr>stats_id = 2, streamId = 8, viewerCount = Some 0, uptime = Some 0, ping = Some 0,
           connectionStatus = Some ''connecting'', updatedAt = Some 0\<rparr>"
    by (simp add: getStreamStats_def scenario_stats_def)
  have g9: "getStreamStats scenario_stats 9 =
     Some \<lparr>stats_id = 3, streamId = 9, viewerCount = Some 12, uptime = Some 40, ping = Some 18,
           connectionStatus = Some ''connected'', updatedAt = Some 0\<rparr>"
    by (simp add: getStreamStats_def scenario_stats_def)
  have t: "stats_tick (\<lambda>_. (4, 6)) 5000 (run two_streams_trace scenario_init) scenario_stats =
     ([(1, \<lparr>stats_id = 1, streamId = 7, viewerCount = Some 0, uptime = Some 105, ping = Some 21,
           connectionStatus = Some ''connected'', updatedAt = Some 5000\<rparr>),
       (2, \<lparr>stats_id = 2, streamId = 8, viewerCount = Some 0, uptime = Some 0, ping = Some 0,
           connectionStatus = Some ''connecting'', updatedAt = Some 0\<rparr>),
       (3, \<lparr>stats_id = 3, streamId = 9, viewerCount = Some 12, uptime = Some 40, ping = Some 18,
           connectionStatus = Some ''connected'', updatedAt = Some 0\<rparr>)],
      [StatsUpdate 7 0 105 21 ''connected''])"
    by (simp add: stats_tick_def two_streams_eval getStreamStats_def scenario_stats_def
        updateStreamStats_def or_zero_def Let_def)
  from stats_tick_connected[OF r k g7, where rnd = "\<lambda>_. (4, 6)" and now = 5000]
    stats_tick_connected[OF r k g8, where rnd = "\<lambda>_. (4, 6)" and now = 5000]
    stats_tick_connected[OF r k g9, where rnd = "\<lambda>_. (4, 6)" and now = 5000]
  show ?thesis using k a g7 g8 g9 by (simp add: t getStreamStats_def)
qed

end
